theory Spec2Isabelle
  imports Complex_Main "HOL-Library.Word" "HOL-Library.Stream"
begin

section \<open>The grid-world environment of map\_env.py\<close>

subsection \<open>Data\<close>

text \<open>
  Exceptions the modelled code can raise. An out-of-range numpy or list index raises
  IndexError; \<open>random.randint\<close> on an empty range raises ValueError.
\<close>

datatype py_error = IndexError | ValueError

text \<open>
  A numpy array of dtype uint8 and shape (rows, columns) is a list of rows of 8-bit
  words. The arithmetic of the entries wraps modulo 256, as numpy's does.
\<close>

type_synonym matrix = "8 word list list"

text \<open>
  The float returned by \<open>_get_distance_to_nearest_enemy\<close>: either \<open>float('inf')\<close> or
  a finite square root. The finite values are modelled as exact reals, that is, the
  rounding of \<open>math.sqrt\<close> is left out.
\<close>

datatype distance = Dist real | Infinity

fun dist_less :: "distance \<Rightarrow> distance \<Rightarrow> bool" where
  "dist_less (Dist a) (Dist b) = (a < b)"
| "dist_less (Dist a) Infinity = True"
| "dist_less Infinity d = False"

text \<open>The fields of a \<open>MapEnv\<close> object that \<open>reset\<close> and \<open>step\<close> read or write.\<close>

record map_env =
  map_width :: nat
  map_height :: nat
  start_pos :: "int \<times> int"
  player_pos :: "int \<times> int"
  enemy_locations :: "(int \<times> int) list"
  wall_matrix :: matrix
  goal_matrix :: matrix
  last_distance :: distance

text \<open>
  A layer of the tiled map: a tile layer yields triples (x, y, gid) when iterated, any
  other kind of layer (object group, image layer) is skipped by the \<open>isinstance\<close> test.
\<close>

datatype layer = TiledTileLayer "(int \<times> int \<times> nat) list" | OtherLayer

text \<open>The three channels returned by \<open>_get_observation\<close>, in the order of \<open>np.stack\<close>.\<close>

type_synonym observation = "matrix \<times> matrix \<times> matrix"

text \<open>What \<open>step\<close> returns: observation, reward, terminated, truncated.\<close>

type_synonym step_result = "observation \<times> real \<times> bool \<times> bool"

subsection \<open>numpy indexing\<close>

text \<open>
  An index \<open>i\<close> into an axis of length \<open>n\<close>: \<open>0 \<le> i < n\<close> is taken as it is, a negative
  index \<open>-n \<le> i < 0\<close> counts from the end, anything else raises IndexError.
\<close>

definition np_index :: "nat \<Rightarrow> int \<Rightarrow> py_error + nat" where
  "np_index n i =
     (if 0 \<le> i \<and> i < int n then Inr (nat i)
      else if - int n \<le> i \<and> i < 0 then Inr (nat (int n + i))
      else Inl IndexError)"

definition np_get :: "matrix \<Rightarrow> int \<Rightarrow> int \<Rightarrow> py_error + 8 word" where
  "np_get m y x =
     (case np_index (length m) y of
        Inl e \<Rightarrow> Inl e
      | Inr i \<Rightarrow>
          (case np_index (length (m ! i)) x of
             Inl e \<Rightarrow> Inl e
           | Inr j \<Rightarrow> Inr (m ! i ! j)))"

definition np_set :: "matrix \<Rightarrow> int \<Rightarrow> int \<Rightarrow> 8 word \<Rightarrow> py_error + matrix" where
  "np_set m y x v =
     (case np_index (length m) y of
        Inl e \<Rightarrow> Inl e
      | Inr i \<Rightarrow>
          (case np_index (length (m ! i)) x of
             Inl e \<Rightarrow> Inl e
           | Inr j \<Rightarrow> Inr (m[i := (m ! i)[j := v]])))"

definition np_full :: "nat \<Rightarrow> nat \<Rightarrow> 8 word \<Rightarrow> matrix" where
  "np_full h w v = replicate h (replicate w v)"

subsection \<open>Construction\<close>

text \<open>
  The body of the innermost loop of \<open>__init__\<close>, on the triple (wall matrix, goal matrix,
  enemy locations).
\<close>

definition classify_tile ::
  "nat set \<Rightarrow> nat set \<Rightarrow> matrix \<times> matrix \<times> (int \<times> int) list \<Rightarrow> int \<times> int \<times> nat \<Rightarrow>
   py_error + (matrix \<times> matrix \<times> (int \<times> int) list)" where
  "classify_tile walkable_gids enemy_gids st tile =
     (case st of (wall, goal, enemies) \<Rightarrow>
      case tile of (x, y, gid) \<Rightarrow>
        if gid \<in> walkable_gids then
          (case np_set wall y x 0 of
             Inl e \<Rightarrow> Inl e
           | Inr wall' \<Rightarrow> Inr (wall', goal, enemies))
        else if gid \<in> enemy_gids then
          (case np_set wall y x 0 of
             Inl e \<Rightarrow> Inl e
           | Inr wall' \<Rightarrow>
               (case np_set goal y x 255 of
                  Inl e \<Rightarrow> Inl e
                | Inr goal' \<Rightarrow> Inr (wall', goal', enemies @ [(x, y)])))
        else
          (case np_set wall y x 1 of
             Inl e \<Rightarrow> Inl e
           | Inr wall' \<Rightarrow> Inr (wall', goal, enemies)))"

fun classify_tiles ::
  "nat set \<Rightarrow> nat set \<Rightarrow> matrix \<times> matrix \<times> (int \<times> int) list \<Rightarrow> (int \<times> int \<times> nat) list \<Rightarrow>
   py_error + (matrix \<times> matrix \<times> (int \<times> int) list)" where
  "classify_tiles walkable_gids enemy_gids st [] = Inr st"
| "classify_tiles walkable_gids enemy_gids st (t # ts) =
     (case classify_tile walkable_gids enemy_gids st t of
        Inl e \<Rightarrow> Inl e
      | Inr st' \<Rightarrow> classify_tiles walkable_gids enemy_gids st' ts)"

fun classify_layers ::
  "nat set \<Rightarrow> nat set \<Rightarrow> matrix \<times> matrix \<times> (int \<times> int) list \<Rightarrow> layer list \<Rightarrow>
   py_error + (matrix \<times> matrix \<times> (int \<times> int) list)" where
  "classify_layers walkable_gids enemy_gids st [] = Inr st"
| "classify_layers walkable_gids enemy_gids st (OtherLayer # ls) =
     classify_layers walkable_gids enemy_gids st ls"
| "classify_layers walkable_gids enemy_gids st (TiledTileLayer ts # ls) =
     (case classify_tiles walkable_gids enemy_gids st ts of
        Inl e \<Rightarrow> Inl e
      | Inr st' \<Rightarrow> classify_layers walkable_gids enemy_gids st' ls)"

text \<open>
  \<open>_get_distance_to_nearest_enemy\<close>: the least Euclidean distance from the player to
  an enemy location, \<open>float('inf')\<close> when there is none.
\<close>

definition get_distance_to_nearest_enemy :: "map_env \<Rightarrow> distance" where
  "get_distance_to_nearest_enemy env =
     (case player_pos env of (player_x, player_y) \<Rightarrow>
        if enemy_locations env = [] then Infinity
        else Dist (min_list (map (\<lambda>(ex, ey).
               sqrt (real_of_int ((player_x - ex)\<^sup>2 + (player_y - ey)\<^sup>2)))
               (enemy_locations env))))"

text \<open>
  \<open>__init__\<close>, from the loaded map's width, height and visible layers. The player
  starts on the start tile and the cached distance is computed there.
\<close>

definition MapEnv_init ::
  "nat \<Rightarrow> nat \<Rightarrow> layer list \<Rightarrow> int \<times> int \<Rightarrow> nat set \<Rightarrow> nat set \<Rightarrow> py_error + map_env" where
  "MapEnv_init width height visible_layers player_start_tile enemy_gids walkable_gids =
     (case classify_layers walkable_gids enemy_gids
             (np_full height width 1, np_full height width 0, []) visible_layers of
        Inl e \<Rightarrow> Inl e
      | Inr (wall, goal, enemies) \<Rightarrow>
          (let env = \<lparr> map_width = width, map_height = height,
                       start_pos = player_start_tile, player_pos = player_start_tile,
                       enemy_locations = enemies, wall_matrix = wall, goal_matrix = goal,
                       last_distance = Infinity \<rparr>
           in Inr (env\<lparr> last_distance := get_distance_to_nearest_enemy env \<rparr>)))"

subsection \<open>Observation, reset and step\<close>

text \<open>
  \<open>_get_observation\<close>. The player channel is written only under the bounds test, so
  the write never fails; the wall channel is the wall matrix times 255 in uint8.
\<close>

definition get_observation :: "map_env \<Rightarrow> observation" where
  "get_observation env =
     (let zeros = np_full (map_height env) (map_width env) 0;
          (px, py) = player_pos env;
          player_matrix =
            (if 0 \<le> py \<and> py < int (map_height env) \<and> 0 \<le> px \<and> px < int (map_width env)
             then zeros[nat py := (zeros ! nat py)[nat px := 255]]
             else zeros)
      in (map (map (\<lambda>v. v * 255)) (wall_matrix env), player_matrix, goal_matrix env))"

text \<open>
  \<open>reset\<close>. The call to the base class only seeds a generator that this class never
  reads. The returned info dictionary is always empty and is left out.
\<close>

definition reset :: "map_env \<Rightarrow> map_env \<times> observation" where
  "reset env =
     (let env1 = env\<lparr> player_pos := start_pos env \<rparr>;
          env2 = env1\<lparr> last_distance := get_distance_to_nearest_enemy env1 \<rparr>
      in (env2, get_observation env2))"

text \<open>
  The coordinate \<open>step\<close> computes from the action. The \<open>if\<close>/\<open>elif\<close> chain has no
  final \<open>else\<close>: any other action leaves both coordinates as they are.
\<close>

definition candidate :: "int \<times> int \<Rightarrow> int \<Rightarrow> int \<times> int" where
  "candidate pos action =
     (case pos of (x, y) \<Rightarrow>
        if action = 0 then (x, y - 1)
        else if action = 1 then (x, y + 1)
        else if action = 2 then (x - 1, y)
        else if action = 3 then (x + 1, y)
        else (x, y))"

text \<open>
  The end of \<open>step\<close>: the goal matrix is read at the player's position, whichever
  branch was taken before, and a goal tile overrides the reward and ends the episode.
\<close>

definition step_goal_check :: "map_env \<Rightarrow> real \<Rightarrow> map_env \<times> (py_error + step_result)" where
  "step_goal_check env reward =
     (case np_get (goal_matrix env) (snd (player_pos env)) (fst (player_pos env)) of
        Inl e \<Rightarrow> (env, Inl e)
      | Inr g \<Rightarrow>
          if g = 255 then (env, Inr (get_observation env, 100, True, False))
          else (env, Inr (get_observation env, reward, False, False)))"

text \<open>
  \<open>step\<close> returns the object's state after the call, and either the exception raised
  or the returned tuple. The debug prints are left out.
\<close>

definition step :: "map_env \<Rightarrow> int \<Rightarrow> map_env \<times> (py_error + step_result)" where
  "step env action =
     (case candidate (player_pos env) action of (x, y) \<Rightarrow>
        if \<not> (0 \<le> y \<and> y < int (map_height env) \<and> 0 \<le> x \<and> x < int (map_width env))
        then step_goal_check env (- 5)
        else
          (case np_get (wall_matrix env) y x of
             Inl e \<Rightarrow> (env, Inl e)
           | Inr w \<Rightarrow>
               if w = 1 then step_goal_check env (- 5)
               else
                 (let env1 = env\<lparr> player_pos := (x, y) \<rparr>;
                      new_distance = get_distance_to_nearest_enemy env1;
                      reward = (if dist_less new_distance (last_distance env1)
                                then 1 else - (1 / 2));
                      env2 = env1\<lparr> last_distance := new_distance \<rparr>
                  in step_goal_check env2 reward)))"

text \<open>A caller's sequence of calls on one environment object.\<close>

datatype call = Reset | Step int

fun run_calls :: "map_env \<Rightarrow> call list \<Rightarrow> map_env" where
  "run_calls env [] = env"
| "run_calls env (Reset # cs) = run_calls (fst (reset env)) cs"
| "run_calls env (Step a # cs) = run_calls (fst (step env a)) cs"

subsection \<open>Well-formed environments\<close>

text \<open>Both matrices have the shape (map\_height, map\_width), as \<open>__init__\<close> builds them.\<close>

definition shape_ok :: "nat \<Rightarrow> nat \<Rightarrow> matrix \<Rightarrow> bool" where
  "shape_ok h w m = (length m = h \<and> list_all (\<lambda>row. length row = w) m)"

definition wf_env :: "map_env \<Rightarrow> bool" where
  "wf_env env =
     (shape_ok (map_height env) (map_width env) (wall_matrix env) \<and>
      shape_ok (map_height env) (map_width env) (goal_matrix env))"

definition in_bounds :: "map_env \<Rightarrow> int \<times> int \<Rightarrow> bool" where
  "in_bounds env pos =
     (0 \<le> snd pos \<and> snd pos < int (map_height env) \<and>
      0 \<le> fst pos \<and> fst pos < int (map_width env))"

section \<open>The level generator of test\_env.py\<close>

subsection \<open>Constants and data\<close>

text \<open>The module constants the generator reads.\<close>

definition MAP_W :: int where "MAP_W = 48"
definition MAP_H :: int where "MAP_H = 36"
definition N_ROOMS :: nat where "N_ROOMS = 12"
definition ROOM_MIN_W :: int where "ROOM_MIN_W = 5"
definition ROOM_MAX_W :: int where "ROOM_MAX_W = 12"
definition ROOM_MIN_H :: int where "ROOM_MIN_H = 4"
definition ROOM_MAX_H :: int where "ROOM_MAX_H = 9"
definition SEED :: "int option" where "SEED = Some 42"

text \<open>
  The grid holds one image per cell. The images are told apart by their role: the dark
  fallback surface the grid is first filled with, and the floor, path, castle and tree
  images.
\<close>

datatype tile = Background | Floor | Path | Castle | Tree

type_synonym grid = "tile list list"

text \<open>A room is the tuple (x, y, w, h).\<close>

type_synonym rect = "int \<times> int \<times> int \<times> int"

subsection \<open>The pseudo-random source\<close>

text \<open>
  The state of Python's \<open>random\<close> module is modelled by the stream of raw numbers it
  will still produce. Every call consumes one raw number, and every result the real
  generator can return is the result for some raw number: \<open>randint(a, b)\<close> returns any
  integer from \<open>a\<close> to \<open>b\<close> and raises ValueError on an empty range,
  \<open>choice([True, False])\<close> returns either element, \<open>random()\<close> returns a multiple
  of \<open>2 ^ -53\<close> in the half-open unit interval.
\<close>

type_synonym rng = "nat stream"

definition randint :: "int \<Rightarrow> int \<Rightarrow> rng \<Rightarrow> py_error + (int \<times> rng)" where
  "randint a b g =
     (if b < a then Inl ValueError
      else Inr (a + int (shd g mod nat (b - a + 1)), stl g))"

definition choice_bool :: "rng \<Rightarrow> bool \<times> rng" where
  "choice_bool g = ([True, False] ! (shd g mod 2), stl g)"

definition random_unit :: "rng \<Rightarrow> real \<times> rng" where
  "random_unit g = (real (shd g mod 2 ^ 53) / 2 ^ 53, stl g)"

subsection \<open>Writing cells\<close>

text \<open>
  \<open>grid[y][x] = tile\<close> on a list of lists. A list index behaves as a numpy index does:
  a negative index counts from the end, an index out of range raises IndexError.
\<close>

definition grid_set :: "grid \<Rightarrow> int \<Rightarrow> int \<Rightarrow> tile \<Rightarrow> py_error + grid" where
  "grid_set grid y x t =
     (case np_index (length grid) y of
        Inl e \<Rightarrow> Inl e
      | Inr i \<Rightarrow>
          (case np_index (length (grid ! i)) x of
             Inl e \<Rightarrow> Inl e
           | Inr j \<Rightarrow> Inr (grid[i := (grid ! i)[j := t]])))"

text \<open>A loop that writes one tile into the cells (x, y) of a list, in order.\<close>

fun set_cells :: "grid \<Rightarrow> (int \<times> int) list \<Rightarrow> tile \<Rightarrow> py_error + grid" where
  "set_cells grid [] t = Inr grid"
| "set_cells grid ((x, y) # cs) t =
     (case grid_set grid y x t of
        Inl e \<Rightarrow> Inl e
      | Inr grid' \<Rightarrow> set_cells grid' cs t)"

subsection \<open>Rooms and corridors\<close>

definition rects_overlap :: "rect \<Rightarrow> rect \<Rightarrow> int \<Rightarrow> bool" where
  "rects_overlap a b padding =
     (case a of (ax1, ay1, aw, ah) \<Rightarrow>
      case b of (bx1, by1, bw, bh) \<Rightarrow>
        (let ax2 = ax1 + aw - 1; ay2 = ay1 + ah - 1;
             bx2 = bx1 + bw - 1; by2 = by1 + bh - 1
         in \<not> (ax2 + padding < bx1 \<or> bx2 + padding < ax1 \<or>
                ay2 + padding < by1 \<or> by2 + padding < ay1)))"

text \<open>\<open>range(min(x1, x2), max(x1, x2) + 1)\<close> is the integer interval from the least to the greatest.\<close>

definition carve_h_corridor :: "grid \<Rightarrow> int \<Rightarrow> int \<Rightarrow> int \<Rightarrow> tile \<Rightarrow> py_error + grid" where
  "carve_h_corridor grid x1 x2 y t =
     set_cells grid (map (\<lambda>x. (x, y)) [min x1 x2 .. max x1 x2]) t"

definition carve_v_corridor :: "grid \<Rightarrow> int \<Rightarrow> int \<Rightarrow> int \<Rightarrow> tile \<Rightarrow> py_error + grid" where
  "carve_v_corridor grid y1 y2 x t =
     set_cells grid (map (\<lambda>y. (x, y)) [min y1 y2 .. max y1 y2]) t"

text \<open>The cells of a room, in the order of the two nested loops that carve it.\<close>

definition room_cells :: "rect \<Rightarrow> (int \<times> int) list" where
  "room_cells r =
     (case r of (x, y, w, h) \<Rightarrow>
        concat (map (\<lambda>ry. map (\<lambda>rx. (rx, ry)) [x .. x + w - 1]) [y .. y + h - 1]))"

text \<open>
  The \<open>while\<close> loop of \<open>create_rooms_and_corridors\<close>. The number of rooms asked for is
  the module constant \<open>N_ROOMS\<close> in the source; it is a parameter here.
\<close>

function place_rooms ::
  "nat \<Rightarrow> grid \<Rightarrow> tile \<Rightarrow> rect list \<Rightarrow> nat \<Rightarrow> rng \<Rightarrow> py_error + (grid \<times> rect list \<times> rng)" where
  "place_rooms n_rooms grid floor_tile rooms attempts g =
     (if length rooms < n_rooms \<and> attempts < n_rooms * 12 then
        (case randint ROOM_MIN_W ROOM_MAX_W g of
           Inl e \<Rightarrow> Inl e
         | Inr (w, g1) \<Rightarrow>
        (case randint ROOM_MIN_H ROOM_MAX_H g1 of
           Inl e \<Rightarrow> Inl e
         | Inr (h, g2) \<Rightarrow>
        (case randint 1 (MAP_W - w - 2) g2 of
           Inl e \<Rightarrow> Inl e
         | Inr (x, g3) \<Rightarrow>
        (case randint 1 (MAP_H - h - 2) g3 of
           Inl e \<Rightarrow> Inl e
         | Inr (y, g4) \<Rightarrow>
             if list_ex (\<lambda>r. rects_overlap (x, y, w, h) r 1) rooms
             then place_rooms n_rooms grid floor_tile rooms (attempts + 1) g4
             else
               (case set_cells grid (room_cells (x, y, w, h)) floor_tile of
                  Inl e \<Rightarrow> Inl e
                | Inr grid' \<Rightarrow>
                    place_rooms n_rooms grid' floor_tile (rooms @ [(x, y, w, h)])
                      (attempts + 1) g4)))))
      else Inr (grid, rooms, g))"
  by pat_completeness auto
termination
  by (relation "measure (\<lambda>(n_rooms, grid, floor_tile, rooms, attempts, g). n_rooms * 12 - attempts)")
     auto

definition center :: "rect \<Rightarrow> int \<times> int" where
  "center r = (case r of (x, y, w, h) \<Rightarrow> (x + w div 2, y + h div 2))"

text \<open>The \<open>for\<close> loop over consecutive rooms, each pair joined by an L-shaped corridor.\<close>

fun connect_rooms :: "grid \<Rightarrow> tile \<Rightarrow> rect list \<Rightarrow> rng \<Rightarrow> py_error + (grid \<times> rng)" where
  "connect_rooms grid path_tile (r1 # r2 # rs) g =
     (let c1 = center r1; c2 = center r2; (b, g') = choice_bool g
      in case (if b then
                 (case carve_h_corridor grid (fst c1) (fst c2) (snd c1) path_tile of
                    Inl e \<Rightarrow> Inl e
                  | Inr grid1 \<Rightarrow> carve_v_corridor grid1 (snd c1) (snd c2) (fst c2) path_tile)
               else
                 (case carve_v_corridor grid (snd c1) (snd c2) (fst c1) path_tile of
                    Inl e \<Rightarrow> Inl e
                  | Inr grid1 \<Rightarrow> carve_h_corridor grid1 (fst c1) (fst c2) (snd c2) path_tile)) of
           Inl e \<Rightarrow> Inl e
         | Inr grid2 \<Rightarrow> connect_rooms grid2 path_tile (r2 # rs) g')"
| "connect_rooms grid path_tile rs g = Inr (grid, g)"

definition create_rooms_and_corridors ::
  "nat \<Rightarrow> grid \<Rightarrow> tile \<Rightarrow> tile \<Rightarrow> rng \<Rightarrow> py_error + (grid \<times> rect list \<times> rng)" where
  "create_rooms_and_corridors n_rooms grid floor_tile path_tile g =
     (case place_rooms n_rooms grid floor_tile [] 0 g of
        Inl e \<Rightarrow> Inl e
      | Inr (grid1, rooms, g1) \<Rightarrow>
          (case connect_rooms grid1 path_tile rooms g1 of
             Inl e \<Rightarrow> Inl e
           | Inr (grid2, g2) \<Rightarrow> Inr (grid2, rooms, g2)))"

subsection \<open>Castles, decorations and the generation part of main\<close>

text \<open>The 4 by 4 block of \<open>place_castle\<close>; a cell is written only under the bounds test.\<close>

definition place_castle :: "grid \<Rightarrow> int \<times> int \<Rightarrow> tile \<Rightarrow> py_error + grid" where
  "place_castle grid origin castle_tile =
     (case origin of (ox, oy) \<Rightarrow>
        set_cells grid
          (filter (\<lambda>(x, y). 0 \<le> x \<and> x < MAP_W \<and> 0 \<le> y \<and> y < MAP_H)
             (concat (map (\<lambda>j. map (\<lambda>i. (ox + i, oy + j)) [0 .. 3]) [0 .. 3])))
          castle_tile)"

text \<open>
  The loop of \<open>add_decorations\<close> over the cells. \<open>random.random()\<close> is the left operand
  of the \<open>and\<close>, so it is called for every cell; a missing tree image (\<open>None\<close>) is falsy.
\<close>

fun decorate_cells ::
  "grid \<Rightarrow> (int \<times> int) list \<Rightarrow> tile option \<Rightarrow> real \<Rightarrow> rng \<Rightarrow> py_error + (grid \<times> rng)" where
  "decorate_cells grid [] tree_tile density g = Inr (grid, g)"
| "decorate_cells grid ((x, y) # cs) tree_tile density g =
     (let (u, g') = random_unit g
      in case tree_tile of
           None \<Rightarrow> decorate_cells grid cs tree_tile density g'
         | Some t \<Rightarrow>
             if u < density then
               (case grid_set grid y x t of
                  Inl e \<Rightarrow> Inl e
                | Inr grid' \<Rightarrow> decorate_cells grid' cs tree_tile density g')
             else decorate_cells grid cs tree_tile density g')"

definition add_decorations ::
  "grid \<Rightarrow> tile option \<Rightarrow> real \<Rightarrow> rng \<Rightarrow> py_error + (grid \<times> rng)" where
  "add_decorations grid tree_tile density g =
     decorate_cells grid
       (concat (map (\<lambda>y. map (\<lambda>x. (x, y)) [0 .. MAP_W - 1]) [0 .. MAP_H - 1]))
       tree_tile density g"

definition area :: "rect \<Rightarrow> int" where
  "area r = (case r of (x, y, w, h) \<Rightarrow> w * h)"

text \<open>
  The two castles of \<open>main\<close>, near the centers of the two largest rooms.
  \<open>sorted(..., reverse=True)\<close> is a stable sort by descending key.
\<close>

definition place_castles :: "grid \<Rightarrow> rect list \<Rightarrow> py_error + grid" where
  "place_castles grid rooms =
     (if 2 \<le> length rooms then
        (let rooms_sorted = sort_key (\<lambda>r. - area r) rooms;
             r1 = rooms_sorted ! 0;
             r2 = rooms_sorted ! 1;
             c1 = (fst (center r1) - 1, snd (center r1) - 1);
             c2 = (fst (center r2) - 1, snd (center r2) - 1)
         in case place_castle grid c1 Castle of
              Inl e \<Rightarrow> Inl e
            | Inr grid1 \<Rightarrow> place_castle grid1 c2 Castle)
      else Inr grid)"

text \<open>
  The generation part of \<open>main\<close>, up to the spawn points: seeding, the background grid,
  rooms and corridors, castles, decorations, and the centers of the first six rooms.
  \<open>seed_rng\<close> stands for \<open>random.seed\<close> of the standard library, which sets the module's
  state from the seed alone; \<open>g0\<close> is the state the module is in when \<open>main\<close> starts.
  The window, the event loop and the drawing that follow are not modelled. The density
  0.02 is the rational 2 / 100: no multiple of \<open>2 ^ -53\<close> lies between the two, so the
  comparison with a draw of \<open>random()\<close> is the same.
\<close>

definition main ::
  "(int \<Rightarrow> rng) \<Rightarrow> int option \<Rightarrow> nat \<Rightarrow> rng \<Rightarrow>
   py_error + (grid \<times> rect list \<times> (int \<times> int) list)" where
  "main seed_rng seed n_rooms g0 =
     (let g = (case seed of None \<Rightarrow> g0 | Some s \<Rightarrow> seed_rng s);
          grid = replicate (nat MAP_H) (replicate (nat MAP_W) Background)
      in case create_rooms_and_corridors n_rooms grid Floor Path g of
           Inl e \<Rightarrow> Inl e
         | Inr (grid1, rooms, g1) \<Rightarrow>
             (case place_castles grid1 rooms of
                Inl e \<Rightarrow> Inl e
              | Inr grid2 \<Rightarrow>
                  (case add_decorations grid2 (Some Tree) (2 / 100) g1 of
                     Inl e \<Rightarrow> Inl e
                   | Inr (grid3, g2) \<Rightarrow>
                       Inr (grid3, rooms, map center (take 6 rooms)))))"

subsection \<open>Walls, open cells and reachability on a generated grid\<close>

text \<open>
  Modelled from the spec: the classification of generated tiles into wall and non-wall,
  which test\_env.py does not have (its grid holds images and nothing reads them as
  walls). In the spec the grid starts filled with the "empty/unwalkable" background tile,
  rooms and corridors are floor and path tiles, and landmark and decoration tiles do not
  block; so the background is the one wall tile.
\<close>

definition is_wall_tile :: "tile \<Rightarrow> bool" where
  "is_wall_tile t = (t = Background)"

definition in_map :: "int \<times> int \<Rightarrow> bool" where
  "in_map p = (0 \<le> fst p \<and> fst p < MAP_W \<and> 0 \<le> snd p \<and> snd p < MAP_H)"

definition cell :: "grid \<Rightarrow> int \<times> int \<Rightarrow> tile" where
  "cell grid p = grid ! nat (snd p) ! nat (fst p)"

definition open_cell :: "grid \<Rightarrow> int \<times> int \<Rightarrow> bool" where
  "open_cell grid p = (in_map p \<and> \<not> is_wall_tile (cell grid p))"

text \<open>Two cells are adjacent when one move up, down, left or right leads from one to the other.\<close>

definition adjacent :: "int \<times> int \<Rightarrow> int \<times> int \<Rightarrow> bool" where
  "adjacent p q = (\<bar>fst p - fst q\<bar> + \<bar>snd p - snd q\<bar> = 1)"

text \<open>A cell is reachable from another by a walk over open cells, both ends included.\<close>

inductive reachable :: "grid \<Rightarrow> int \<times> int \<Rightarrow> int \<times> int \<Rightarrow> bool" for grid where
  start: "open_cell grid p \<Longrightarrow> reachable grid p p"
| move: "reachable grid p q \<Longrightarrow> adjacent q r \<Longrightarrow> open_cell grid r \<Longrightarrow> reachable grid p r"

text \<open>A grid of MAP\_H rows of MAP\_W cells, as \<open>main\<close> builds it.\<close>

definition wf_grid :: "grid \<Rightarrow> bool" where
  "wf_grid grid = (length grid = nat MAP_H \<and> list_all (\<lambda>row. length row = nat MAP_W) grid)"

text \<open>The rectangles the room loop can draw: sizes and origin within the ranges of \<open>randint\<close>.\<close>

definition room_ok :: "rect \<Rightarrow> bool" where
  "room_ok r =
     (case r of (x, y, w, h) \<Rightarrow>
        ROOM_MIN_W \<le> w \<and> w \<le> ROOM_MAX_W \<and> ROOM_MIN_H \<le> h \<and> h \<le> ROOM_MAX_H \<and>
        1 \<le> x \<and> x \<le> MAP_W - w - 2 \<and> 1 \<le> y \<and> y \<le> MAP_H - h - 2)"

text \<open>No two rooms of a list overlap, the padding of one tile included.\<close>

definition no_overlaps :: "rect list \<Rightarrow> bool" where
  "no_overlaps rooms =
     (\<forall>i j. i < length rooms \<and> j < length rooms \<and> i \<noteq> j \<longrightarrow>
        \<not> rects_overlap (rooms ! i) (rooms ! j) 1)"

text \<open>Every open cell of the first grid is open in the second.\<close>

definition opens_more :: "grid \<Rightarrow> grid \<Rightarrow> bool" where
  "opens_more grid grid' = (\<forall>p. open_cell grid p \<longrightarrow> open_cell grid' p)"

subsection \<open>Auxiliary notions for the statements\<close>

definition moved :: "map_env \<Rightarrow> int \<times> int \<Rightarrow> map_env" where
  "moved env c = env\<lparr> player_pos := c,
      last_distance := get_distance_to_nearest_enemy (env\<lparr> player_pos := c \<rparr>) \<rparr>"

definition blocked :: "map_env \<Rightarrow> int \<times> int \<Rightarrow> bool" where
  "blocked env c = (\<not> in_bounds env c \<or> wall_matrix env ! nat (snd c) ! nat (fst c) = 1)"

definition example_env :: map_env where
  "example_env = \<lparr> map_width = 3, map_height = 2, start_pos = (0, 0), player_pos = (0, 0),
     enemy_locations = [(2, 0)], wall_matrix = [[0, 0, 0], [1, 0, 0]],
     goal_matrix = [[0, 0, 255], [0, 0, 0]], last_distance = Dist 2 \<rparr>"

definition goal_env :: map_env where
  "goal_env = \<lparr> map_width = 1, map_height = 1, start_pos = (0, 0), player_pos = (0, 0),
     enemy_locations = [(0, 0)], wall_matrix = [[0]],
     goal_matrix = [[255]], last_distance = Dist 0 \<rparr>"

text \<open>Every goal entry 255 has wall entry 0, on the triple the construction loop works on.\<close>

definition goals_open :: "matrix \<times> matrix \<times> (int \<times> int) list \<Rightarrow> bool" where
  "goals_open st =
     (\<forall>i j. i < length (fst (snd st)) \<and> j < length (fst (snd st) ! i) \<and>
            fst (snd st) ! i ! j = 255 \<longrightarrow> fst st ! i ! j = 0)"

definition shapes_ok :: "nat \<Rightarrow> nat \<Rightarrow> matrix \<times> matrix \<times> (int \<times> int) list \<Rightarrow> bool" where
  "shapes_ok h w st = (shape_ok h w (fst st) \<and> shape_ok h w (fst (snd st)))"

section \<open>Properties of the environment\<close>

lemma np_index_in_range: "0 \<le> i \<Longrightarrow> i < int n \<Longrightarrow> np_index n i = Inr (nat i)"
  by (simp add: np_index_def)

lemma np_get_in_range:
  assumes "shape_ok h w m" "0 \<le> y" "y < int h" "0 \<le> x" "x < int w"
  shows "np_get m y x = Inr (m ! nat y ! nat x)"
proof -
  from assms have len: "length m = h" and row: "length (m ! nat y) = w"
    by (auto simp: shape_ok_def list_all_length)
  show ?thesis
    using assms len row by (simp add: np_get_def np_index_in_range)
qed

lemma fst_step_goal_check: "fst (step_goal_check env r) = env"
  by (simp add: step_goal_check_def split: sum.splits)

lemma step_goal_check_in_range:
  assumes "wf_env env" "in_bounds env (player_pos env)"
  shows "step_goal_check env r =
     (env, Inr (get_observation env,
        if goal_matrix env ! nat (snd (player_pos env)) ! nat (fst (player_pos env)) = 255
        then (100, True, False) else (r, False, False)))"
  using assms np_get_in_range [of "map_height env" "map_width env" "goal_matrix env"
      "snd (player_pos env)" "fst (player_pos env)"]
  by (simp add: step_goal_check_def wf_env_def in_bounds_def)

lemma step_blocked:
  assumes "wf_env env" "blocked env (candidate (player_pos env) action)"
  shows "step env action = step_goal_check env (- 5)"
proof (cases "candidate (player_pos env) action")
  case (Pair x y)
  show ?thesis
  proof (cases "in_bounds env (x, y)")
    case False
    then show ?thesis using Pair by (simp add: step_def in_bounds_def)
  next
    case True
    with assms Pair have w: "wall_matrix env ! nat y ! nat x = 1"
      by (simp add: blocked_def)
    from True assms(1) have "np_get (wall_matrix env) y x = Inr (wall_matrix env ! nat y ! nat x)"
      by (intro np_get_in_range [of "map_height env" "map_width env"])
         (simp_all add: wf_env_def in_bounds_def)
    with w True Pair show ?thesis by (simp add: step_def in_bounds_def)
  qed
qed

lemma step_moved:
  assumes "wf_env env" "\<not> blocked env (candidate (player_pos env) action)"
  shows "step env action =
     step_goal_check (moved env (candidate (player_pos env) action))
       (if dist_less (get_distance_to_nearest_enemy
                        (env\<lparr> player_pos := candidate (player_pos env) action \<rparr>))
                     (last_distance env)
        then 1 else - (1 / 2))"
proof (cases "candidate (player_pos env) action")
  case (Pair x y)
  with assms have inb: "in_bounds env (x, y)" and w: "wall_matrix env ! nat y ! nat x \<noteq> 1"
    by (simp_all add: blocked_def)
  from inb assms(1) have "np_get (wall_matrix env) y x = Inr (wall_matrix env ! nat y ! nat x)"
    by (intro np_get_in_range [of "map_height env" "map_width env"])
       (simp_all add: wf_env_def in_bounds_def)
  with w inb Pair show ?thesis
    by (simp add: step_def in_bounds_def moved_def Let_def)
qed

lemma replicate_numeral: "replicate (numeral k) x = x # replicate (pred_numeral k) x"
  by (simp add: numeral_eq_Suc)

lemma wf_example_env: "wf_env example_env"
  by (simp add: wf_env_def shape_ok_def example_env_def)

lemma wf_goal_env: "wf_env goal_env"
  by (simp add: wf_env_def shape_ok_def goal_env_def)

lemma candidate_other: "action \<notin> {0, 1, 2, 3} \<Longrightarrow> candidate pos action = pos"
  by (cases pos) (simp add: candidate_def)

lemma step_goal_check_returns:
  assumes "wf_env env" "in_bounds env (player_pos env)"
  shows "\<not> isl (snd (step_goal_check env r))"
  by (simp add: step_goal_check_in_range [OF assms])

lemma step_total:
  assumes "wf_env env" "in_bounds env (player_pos env)"
  shows "\<not> isl (snd (step env action))" and "in_bounds env (player_pos (fst (step env action)))"
    and "wf_env (fst (step env action))"
    and "map_width (fst (step env action)) = map_width env"
    and "map_height (fst (step env action)) = map_height env"
    and "start_pos (fst (step env action)) = start_pos env"
proof -
  let ?c = "candidate (player_pos env) action"
  show "\<not> isl (snd (step env action))" 
  proof (cases "blocked env ?c")
    case True
    then show ?thesis using assms by (simp add: step_blocked step_goal_check_returns)
  next
    case False
    then have "in_bounds env ?c" by (simp add: blocked_def)
    then have "in_bounds (moved env ?c) (player_pos (moved env ?c))" 
      by (simp add: moved_def in_bounds_def)
    moreover have "wf_env (moved env ?c)" using assms(1) by (simp add: moved_def wf_env_def)
    ultimately show ?thesis using False assms
      by (simp add: step_moved step_goal_check_returns)
  qed
  show "in_bounds env (player_pos (fst (step env action)))"
    using assms by (cases "blocked env ?c") (auto simp: step_blocked step_moved fst_step_goal_check moved_def blocked_def)
  show "wf_env (fst (step env action))"
    using assms by (cases "blocked env ?c") (auto simp: step_blocked step_moved fst_step_goal_check moved_def wf_env_def)
  show "map_width (fst (step env action)) = map_width env"
    using assms by (cases "blocked env ?c") (auto simp: step_blocked step_moved fst_step_goal_check moved_def)
  show "map_height (fst (step env action)) = map_height env"
    using assms by (cases "blocked env ?c") (auto simp: step_blocked step_moved fst_step_goal_check moved_def)
  show "start_pos (fst (step env action)) = start_pos env"
    using assms by (cases "blocked env ?c") (auto simp: step_blocked step_moved fst_step_goal_check moved_def)
qed

text \<open>
  Claim C1 says that \<open>step\<close> signals an invalid-input error for an action outside
  \<open>{0, 1, 2, 3}\<close>. The code has no such check. What holds instead: for such an action the
  candidate coordinate is the agent's current position, the agent position is unchanged,
  and in a well-formed environment with the agent inside the map the call raises nothing
  and returns an ordinary result.
\<close>

theorem step_other_action_no_error:
  assumes "action \<notin> {0, 1, 2, 3}" "wf_env env" "in_bounds env (player_pos env)"
  shows "candidate (player_pos env) action = player_pos env \<and>
         player_pos (fst (step env action)) = player_pos env \<and>
         \<not> isl (snd (step env action))"
proof -
  have c: "candidate (player_pos env) action = player_pos env"
    using assms(1) by (rule candidate_other)
  have "player_pos (fst (step env action)) = player_pos env"
    using assms(2) c
    by (cases "blocked env (player_pos env)")
       (simp_all add: step_blocked step_moved fst_step_goal_check moved_def)
  with c step_total(1) [OF assms(2,3)] show ?thesis by simp
qed

theorem step_other_action_no_error_witness:
  "(7::int) \<notin> {0, 1, 2, 3} \<and> wf_env example_env \<and> in_bounds example_env (player_pos example_env) \<and>
   candidate (player_pos example_env) 7 = player_pos example_env \<and>
   player_pos (fst (step example_env 7)) = player_pos example_env \<and>
   \<not> isl (snd (step example_env 7))"
proof -
  have a: "(7::int) \<notin> {0, 1, 2, 3}" by simp
  have b: "in_bounds example_env (player_pos example_env)"
    by (simp add: in_bounds_def example_env_def)
  show ?thesis
    using step_other_action_no_error [OF a wf_example_env b] a wf_example_env b by simp
qed

text \<open>
  The claim as stated fails: action 7 on a 3 by 2 map returns the reward \<open>- 1 / 2\<close> and no
  error.
\<close>

theorem step_other_action_counterexample:
  "step example_env 7 = (example_env, Inr (get_observation example_env, - (1 / 2), False, False))"
  by (simp add: step_def candidate_def np_get_def np_index_def step_goal_check_def
      get_distance_to_nearest_enemy_def example_env_def Let_def)

text \<open>
  Claim C2: for every well-formed environment and every action in \<open>{0, 1, 2, 3}\<close>, the
  candidate is the agent's position moved by one tile along one axis (0: y - 1, 1: y + 1,
  2: x - 1, 3: x + 1), and after \<open>step\<close> the agent is on the candidate when the candidate
  is inside the map and its wall entry is not 1, and where it was otherwise.
\<close>

theorem step_position:
  assumes "wf_env env" "action \<in> {0, 1, 2, 3}" "player_pos env = (x, y)"
    "c = candidate (player_pos env) action"
  shows "(action = 0 \<longrightarrow> c = (x, y - 1)) \<and> (action = 1 \<longrightarrow> c = (x, y + 1)) \<and>
         (action = 2 \<longrightarrow> c = (x - 1, y)) \<and> (action = 3 \<longrightarrow> c = (x + 1, y)) \<and>
         player_pos (fst (step env action)) =
           (if in_bounds env c \<and> wall_matrix env ! nat (snd c) ! nat (fst c) \<noteq> 1
            then c else player_pos env)"
proof -
  have cand: "(action = 0 \<longrightarrow> c = (x, y - 1)) \<and> (action = 1 \<longrightarrow> c = (x, y + 1)) \<and>
         (action = 2 \<longrightarrow> c = (x - 1, y)) \<and> (action = 3 \<longrightarrow> c = (x + 1, y))"
    using assms(3,4) by (simp add: candidate_def)
  have "player_pos (fst (step env action)) =
           (if in_bounds env c \<and> wall_matrix env ! nat (snd c) ! nat (fst c) \<noteq> 1
            then c else player_pos env)"
  proof (cases "blocked env c")
    case True
    then show ?thesis using assms(1,4)
      by (auto simp: step_blocked fst_step_goal_check blocked_def)
  next
    case False
    then show ?thesis using assms(1,4)
      by (auto simp: step_moved fst_step_goal_check blocked_def moved_def)
  qed
  with cand show ?thesis by simp
qed

theorem step_position_witness:
  "wf_env example_env \<and> (3::int) \<in> {0, 1, 2, 3} \<and> player_pos example_env = (0, 0) \<and>
   candidate (player_pos example_env) 3 = (1, 0) \<and>
   player_pos (fst (step example_env 3)) = (1, 0) \<and>
   player_pos (fst (step example_env 1)) = (0, 0)"
proof -
  have a: "(3::int) \<in> {0, 1, 2, 3}" and a': "(1::int) \<in> {0, 1, 2, 3}" by simp_all
  have p: "player_pos example_env = (0, 0)" by (simp add: example_env_def)
  have c: "(1, 0) = candidate (player_pos example_env) 3"
    and c': "(0, 1) = candidate (player_pos example_env) 1"
    by (simp_all add: example_env_def candidate_def)
  have "player_pos (fst (step example_env 3)) = (1, 0)"
    using step_position [OF wf_example_env a p c]
    by (simp add: in_bounds_def) (simp add: example_env_def)
  moreover have "player_pos (fst (step example_env 1)) = (0, 0)"
    using step_position [OF wf_example_env a' p c']
    by (simp add: in_bounds_def) (simp add: example_env_def)
  ultimately show ?thesis using wf_example_env a p c by simp
qed



text \<open>
  Claim C4 says that a blocked move always returns the penalty \<open>- 5\<close> with terminated
  false. The goal test at the end of \<open>step\<close> runs on every branch, so this fails when the
  agent already stands on a goal tile. What holds instead, for a well-formed environment
  with the agent inside the map: a blocked move (candidate out of bounds, or wall entry 1)
  raises nothing and leaves the whole state unchanged, the agent position and the cached
  distance included; it returns reward \<open>- 5\<close> and terminated false when the agent's tile is
  not a goal tile, and reward 100 and terminated true when it is.
\<close>

theorem step_blocked_result:
  assumes "wf_env env" "in_bounds env (player_pos env)"
    "c = candidate (player_pos env) action"
    "\<not> in_bounds env c \<or> wall_matrix env ! nat (snd c) ! nat (fst c) = 1"
  shows "fst (step env action) = env \<and>
         snd (step env action) =
           Inr (get_observation env,
                if goal_matrix env ! nat (snd (player_pos env)) ! nat (fst (player_pos env)) = 255
                then (100, True, False) else (- 5, False, False))"
proof -
  have "blocked env (candidate (player_pos env) action)"
    using assms(3,4) by (simp add: blocked_def)
  then have "step env action = step_goal_check env (- 5)"
    using assms(1) by (rule step_blocked [rotated])
  then show ?thesis
    by (simp add: step_goal_check_in_range [OF assms(1,2)])
qed

theorem step_blocked_result_witness:
  "wf_env example_env \<and> in_bounds example_env (player_pos example_env) \<and>
   candidate (player_pos example_env) 0 = (0, - 1) \<and> \<not> in_bounds example_env (0, - 1) \<and>
   candidate (player_pos example_env) 1 = (0, 1) \<and>
   wall_matrix example_env ! nat (snd (0::int, 1::int)) ! nat (fst (0::int, 1::int)) = 1 \<and>
   step example_env 0 = (example_env, Inr (get_observation example_env, - 5, False, False)) \<and>
   step example_env 1 = (example_env, Inr (get_observation example_env, - 5, False, False))"
proof -
  have b: "in_bounds example_env (player_pos example_env)"
    by (simp add: in_bounds_def example_env_def)
  have c0: "(0, - 1) = candidate (player_pos example_env) 0"
    and c1: "(0, 1) = candidate (player_pos example_env) 1"
    by (simp_all add: example_env_def candidate_def)
  have o: "\<not> in_bounds example_env (0, - 1)" by (simp add: in_bounds_def)
  have w: "wall_matrix example_env ! nat (snd (0::int, 1::int)) ! nat (fst (0::int, 1::int)) = 1"
    by (simp add: example_env_def)
  have g: "goal_matrix example_env ! nat (snd (player_pos example_env)) !
             nat (fst (player_pos example_env)) \<noteq> 255"
    by (simp add: example_env_def)
  have "step example_env 0 = (example_env, Inr (get_observation example_env, - 5, False, False))"
    using step_blocked_result [OF wf_example_env b c0] o g by (simp add: prod_eq_iff)
  moreover
  have "step example_env 1 = (example_env, Inr (get_observation example_env, - 5, False, False))"
    using step_blocked_result [OF wf_example_env b c1] w g by (simp add: prod_eq_iff)
  ultimately show ?thesis using wf_example_env b c0 c1 o w by simp
qed

text \<open>
  The claim as stated fails: on a 1 by 1 map whose only tile is a goal, the move up is
  out of bounds and returns reward 100 with terminated true.
\<close>

theorem step_blocked_on_goal_counterexample:
  "wf_env goal_env \<and> in_bounds goal_env (player_pos goal_env) \<and>
   \<not> in_bounds goal_env (candidate (player_pos goal_env) 0) \<and>
   step goal_env 0 = (goal_env, Inr (get_observation goal_env, 100, True, False))"
  by (simp add: wf_goal_env)
     (simp add: goal_env_def in_bounds_def candidate_def step_def step_goal_check_def
        np_get_def np_index_def)

text \<open>
  Claim C5 says that after construction every goal tile has wall entry 0. The branch for
  other tiles sets the wall entry to 1 and leaves the goal entry as it is, so a second
  visible layer whose tile is neither walkable nor an enemy turns a goal tile of the first
  layer into a wall: on a 1 by 1 map with enemy gid 48 in the first layer and gid 0 in the
  second, the constructed environment has goal entry 255 and wall entry 1 at (0, 0).
\<close>

theorem init_second_layer_walls_goal:
  "MapEnv_init 1 1 [TiledTileLayer [(0, 0, 48)], TiledTileLayer [(0, 0, 0)]] (0, 0) {48} {8} =
     Inr \<lparr> map_width = 1, map_height = 1, start_pos = (0, 0), player_pos = (0, 0),
           enemy_locations = [(0, 0)], wall_matrix = [[1]], goal_matrix = [[255]],
           last_distance = Dist 0 \<rparr>"
  by (simp add: MapEnv_init_def classify_tile_def np_set_def np_index_def np_full_def
      get_distance_to_nearest_enemy_def)

text \<open>
  Claim C9: \<open>reset\<close> is idempotent. In every state, a second \<open>reset\<close> right after a first
  returns the same observation and leaves the same cached distance.
\<close>

theorem reset_idempotent:
  "snd (reset (fst (reset env))) = snd (reset env) \<and>
   last_distance (fst (reset (fst (reset env)))) = last_distance (fst (reset env))"
  by (cases "start_pos env")
     (simp add: reset_def Let_def get_distance_to_nearest_enemy_def get_observation_def)

lemma np_index_less: "np_index n i = Inr k \<Longrightarrow> k < n"
  by (auto simp: np_index_def split: if_splits)

lemma np_set_shape:
  assumes "shape_ok h w m" "np_set m y x v = Inr m'"
  shows "shape_ok h w m'"
proof -
  from assms(2) obtain i j where m': "m' = m[i := (m ! i)[j := v]]" and i: "i < length m"
    by (auto simp: np_set_def split: sum.splits dest: np_index_less)
  have "length (m' ! k) = w" if "k < length m" for k
    using assms(1) that i by (cases "k = i") (simp_all add: m' shape_ok_def list_all_length)
  then show ?thesis
    using assms(1) by (simp add: m' shape_ok_def list_all_length)
qed

lemma classify_tile_shape:
  "shapes_ok h w st \<Longrightarrow> classify_tile wg eg st t = Inr st' \<Longrightarrow> shapes_ok h w st'"
  by (auto simp: classify_tile_def shapes_ok_def split: prod.splits if_splits sum.splits
      dest: np_set_shape)

lemma classify_tiles_shape:
  "shapes_ok h w st \<Longrightarrow> classify_tiles wg eg st ts = Inr st' \<Longrightarrow> shapes_ok h w st'"
proof (induction ts arbitrary: st)
  case Nil
  then show ?case by simp
next
  case (Cons t ts)
  then show ?case
    by (auto split: sum.splits dest: classify_tile_shape)
qed

lemma classify_layers_shape:
  "shapes_ok h w st \<Longrightarrow> classify_layers wg eg st ls = Inr st' \<Longrightarrow> shapes_ok h w st'"
proof (induction wg eg st ls rule: classify_layers.induct)
  case (1 wg eg st)
  then show ?case by simp
next
  case (2 wg eg st ls)
  then show ?case by simp
next
  case (3 wg eg st ts ls)
  then show ?case by (auto split: sum.splits dest: classify_tiles_shape)
qed

lemma np_full_shape: "shape_ok h w (np_full h w v)"
  by (simp add: shape_ok_def np_full_def list_all_length)

lemma MapEnv_init_wf:
  assumes "MapEnv_init width height ls start eg wg = Inr env"
  shows "wf_env env" and "map_width env = width" and "map_height env = height"
    and "start_pos env = start" and "player_pos env = start"
proof -
  from assms obtain wall goal enemies where
    cl: "classify_layers wg eg (np_full height width 1, np_full height width 0, []) ls =
           Inr (wall, goal, enemies)"
    and env: "env = \<lparr> map_width = width, map_height = height,
                       start_pos = start, player_pos = start,
                       enemy_locations = enemies, wall_matrix = wall, goal_matrix = goal,
                       last_distance = get_distance_to_nearest_enemy
                         \<lparr> map_width = width, map_height = height,
                       start_pos = start, player_pos = start,
                       enemy_locations = enemies, wall_matrix = wall, goal_matrix = goal,
                       last_distance = Infinity \<rparr> \<rparr>"
    by (auto simp: MapEnv_init_def Let_def split: sum.splits prod.splits)
  have "shapes_ok height width (np_full height width 1, np_full height width 0, [])"
    by (simp add: shapes_ok_def np_full_shape)
  from classify_layers_shape [OF this cl] show "wf_env env"
    by (simp add: env wf_env_def shapes_ok_def)
  show "map_width env = width" "map_height env = height" "start_pos env = start"
    "player_pos env = start"
    by (simp_all add: env)
qed

lemma reset_facts:
  "wf_env env \<Longrightarrow> wf_env (fst (reset env))"
  "map_width (fst (reset env)) = map_width env"
  "map_height (fst (reset env)) = map_height env"
  "start_pos (fst (reset env)) = start_pos env"
  "player_pos (fst (reset env)) = start_pos env"
  by (simp_all add: reset_def Let_def wf_env_def)

lemma in_bounds_cong:
  "map_width e' = map_width e \<Longrightarrow> map_height e' = map_height e \<Longrightarrow>
   in_bounds e' p = in_bounds e p"
  by (simp add: in_bounds_def)

lemma run_calls_invariant:
  assumes "wf_env env" "in_bounds env (start_pos env)" "in_bounds env (player_pos env)"
  shows "wf_env (run_calls env cs) \<and>
         map_width (run_calls env cs) = map_width env \<and>
         map_height (run_calls env cs) = map_height env \<and>
         start_pos (run_calls env cs) = start_pos env \<and>
         in_bounds env (player_pos (run_calls env cs))"
  using assms
proof (induction env cs rule: run_calls.induct)
  case (1 env)
  then show ?case by simp
next
  case (2 env cs)
  let ?e = "fst (reset env)"
  have "wf_env ?e" "in_bounds ?e (start_pos ?e)" "in_bounds ?e (player_pos ?e)"
    using 2(2,3) by (simp_all add: reset_facts in_bounds_cong [of ?e env])
  from 2(1) [OF this] show ?case
    by (simp add: reset_facts in_bounds_cong [of ?e env])
next
  case (3 env a cs)
  let ?e = "fst (step env a)"
  note t = step_total [OF 3(2) 3(4), of a]
  have "wf_env ?e" "in_bounds ?e (start_pos ?e)" "in_bounds ?e (player_pos ?e)"
    using t 3(3) by (simp_all add: in_bounds_cong [of ?e env])
  from 3(1) [OF this] show ?case
    using t by (simp add: in_bounds_cong [of ?e env])
qed

text \<open>
  The branch for walkable tiles and the branch for enemy tiles keep every goal tile
  enterable; only the branch for other tiles can put a wall on a goal.
\<close>

lemma np_set_nth:
  assumes "np_set m y x v = Inr m'"
  shows "\<exists>i j. np_index (length m) y = Inr i \<and> np_index (length (m ! i)) x = Inr j \<and>
           m' = m[i := (m ! i)[j := v]]"
  using assms by (auto simp: np_set_def split: sum.splits)

lemma update_nth2:
  assumes "i < length m" "j < length (m ! i)"
  shows "m[i := (m ! i)[j := v]] ! k ! l =
           (if k = i \<and> l = j then v else m ! k ! l)"
  using assms by (cases "k = i"; cases "l = j") simp_all

lemma update_length2: "length (m[i := (m ! i)[j := v]] ! k) = length (m ! k)"
  by (cases "i < length m"; cases "k = i") (simp_all add: list_update_beyond)

lemma classify_tile_goals_open:
  assumes "shapes_ok h w st" "goals_open st" "classify_tile wg eg st (x, y, gid) = Inr st'"
    "gid \<in> wg \<or> gid \<in> eg"
  shows "goals_open st'"
proof -
  obtain wall goal en where st: "st = (wall, goal, en)" by (cases st)
  from assms(1) have sh: "length wall = h" "length goal = h"
    "\<And>k. k < h \<Longrightarrow> length (wall ! k) = w" "\<And>k. k < h \<Longrightarrow> length (goal ! k) = w"
    by (auto simp: st shapes_ok_def shape_ok_def list_all_length)
  show ?thesis
  proof (cases "gid \<in> wg")
    case True
    with assms(3) obtain wall' where w: "np_set wall y x 0 = Inr wall'" and s: "st' = (wall', goal, en)"
      by (auto simp: st classify_tile_def split: sum.splits)
    from np_set_nth [OF w] obtain i j where ij: "np_index (length wall) y = Inr i"
      "np_index (length (wall ! i)) x = Inr j" "wall' = wall[i := (wall ! i)[j := 0]]" by blast
    then have b: "i < length wall" "j < length (wall ! i)" by (auto dest: np_index_less)
    show ?thesis
      using assms(2) unfolding goals_open_def s st ij(3)
      by (auto simp: update_nth2 [OF b])
  next
    case False
    with assms(4) have e: "gid \<in> eg" by simp
    with False assms(3) obtain wall' goal' where w: "np_set wall y x 0 = Inr wall'"
      and g: "np_set goal y x 255 = Inr goal'" and s: "st' = (wall', goal', en @ [(x, y)])"
      by (auto simp: st classify_tile_def split: sum.splits)
    from np_set_nth [OF w] obtain i j where ij: "np_index (length wall) y = Inr i"
      "np_index (length (wall ! i)) x = Inr j" "wall' = wall[i := (wall ! i)[j := 0]]" by blast
    then have b: "i < length wall" "j < length (wall ! i)" by (auto dest: np_index_less)
    from np_set_nth [OF g] ij(1,2) b sh have g': "goal' = goal[i := (goal ! i)[j := 255]]"
      by auto
    have b': "i < length goal" "j < length (goal ! i)" using b sh by auto
    show ?thesis
      using assms(2) unfolding goals_open_def s st ij(3) g'
      by (auto simp: update_nth2 [OF b] update_nth2 [OF b'] update_length2)
  qed
qed

text \<open>
  Claim C10: when the start tile given to the constructor is inside the map, then after any
  sequence of \<open>reset\<close> and \<open>step\<close> calls the agent is inside the map; consequently a
  further \<open>step\<close> with any action raises no IndexError, and the position at which it reads
  the goal matrix is inside the map (the wall matrix is read only at a candidate that has
  passed the bounds test).
\<close>

theorem position_stays_in_bounds:
  assumes "MapEnv_init width height ls start eg wg = Inr env0"
    "0 \<le> fst start" "fst start < int width" "0 \<le> snd start" "snd start < int height"
    "env = run_calls env0 cs"
  shows "in_bounds env0 (player_pos env) \<and>
         \<not> isl (snd (step env action)) \<and>
         in_bounds env0 (player_pos (fst (step env action)))"
proof -
  note i = MapEnv_init_wf [OF assms(1)]
  have s: "in_bounds env0 (start_pos env0)" "in_bounds env0 (player_pos env0)"
    using assms(2-5) i by (simp_all add: in_bounds_def)
  note r = run_calls_invariant [OF i(1) s, of cs]
  have c: "in_bounds (run_calls env0 cs) p = in_bounds env0 p" for p
    using r by (simp add: in_bounds_def)
  have e: "wf_env (run_calls env0 cs)"
    "in_bounds (run_calls env0 cs) (player_pos (run_calls env0 cs))"
    using r by (simp_all add: c)
  show ?thesis
    unfolding assms(6) using step_total(1,2) [OF e, of action] e(2) by (simp add: c)
qed

theorem position_stays_in_bounds_witness:
  "MapEnv_init 2 1 [TiledTileLayer [(0, 0, 8), (1, 0, 48)]] (0, 0) {48} {8} =
     Inr \<lparr> map_width = 2, map_height = 1, start_pos = (0, 0), player_pos = (0, 0),
           enemy_locations = [(1, 0)], wall_matrix = [[0, 0]], goal_matrix = [[0, 255]],
           last_distance = Dist 1 \<rparr> \<and>
   player_pos (run_calls \<lparr> map_width = 2, map_height = 1, start_pos = (0, 0), player_pos = (0, 0),
           enemy_locations = [(1, 0)], wall_matrix = [[0, 0]], goal_matrix = [[0, 255]],
           last_distance = Dist 1 \<rparr> [Step 2, Step 3, Reset, Step 0]) = (0, 0) \<and>
   \<not> isl (snd (step (run_calls \<lparr> map_width = 2, map_height = 1, start_pos = (0, 0), player_pos = (0, 0),
           enemy_locations = [(1, 0)], wall_matrix = [[0, 0]], goal_matrix = [[0, 255]],
           last_distance = Dist 1 \<rparr> [Step 2, Step 3, Reset, Step 0]) 3))"
proof -
  let ?e = "\<lparr> map_width = 2, map_height = 1, start_pos = (0, 0), player_pos = (0, 0),
           enemy_locations = [(1, 0)], wall_matrix = [[0, 0]], goal_matrix = [[0, 255::8 word]],
           last_distance = Dist 1 \<rparr>"
  have i: "MapEnv_init 2 1 [TiledTileLayer [(0, 0, 8), (1, 0, 48)]] (0, 0) {48} {8} = Inr ?e"
    by (simp add: MapEnv_init_def classify_tile_def np_set_def np_index_def np_full_def
      get_distance_to_nearest_enemy_def replicate_numeral)
  have r: "player_pos (run_calls ?e [Step 2, Step 3, Reset, Step 0]) = (0, 0)"
    by (simp add: step_def candidate_def np_get_def np_index_def step_goal_check_def
        get_distance_to_nearest_enemy_def reset_def Let_def)
  from position_stays_in_bounds [OF i _ _ _ _ refl, of "[Step 2, Step 3, Reset, Step 0]" 3]
  have "\<not> isl (snd (step (run_calls ?e [Step 2, Step 3, Reset, Step 0]) 3))" by simp
  with i r show ?thesis by simp
qed

section \<open>Properties of the generator\<close>

lemma grid_set_in_map:
  assumes "wf_grid g" "in_map (x, y)"
  shows "grid_set g y x t = Inr (g[nat y := (g ! nat y)[nat x := t]])"
proof -
  from assms have "0 \<le> y" "y < int (length g)" "0 \<le> x" "x < int (length (g ! nat y))"
    by (auto simp: wf_grid_def in_map_def list_all_length)
  then show ?thesis by (simp add: grid_set_def np_index_def)
qed

lemma wf_grid_update:
  assumes "wf_grid g" "in_map (x, y)"
  shows "wf_grid (g[nat y := (g ! nat y)[nat x := t]])"
proof -
  have "length ((g[nat y := (g ! nat y)[nat x := t]]) ! k) = nat MAP_W" if "k < length g" for k
    using assms(1) that by (cases "k = nat y") (simp_all add: wf_grid_def list_all_length)
  then show ?thesis using assms(1) by (simp add: wf_grid_def list_all_length)
qed

lemma cell_update:
  assumes "wf_grid g" "in_map (x, y)" "in_map p"
  shows "cell (g[nat y := (g ! nat y)[nat x := t]]) p = (if p = (x, y) then t else cell g p)"
proof -
  from assms have b: "nat y < length g" "nat x < length (g ! nat y)"
    "nat (snd p) < length g" "nat (fst p) < length (g ! nat (snd p))"
    "0 \<le> x" "0 \<le> y" "0 \<le> fst p" "0 \<le> snd p"
    by (auto simp: wf_grid_def in_map_def list_all_length)
  show ?thesis
  proof (cases "snd p = y")
    case True
    with b show ?thesis
      by (cases p) (auto simp: cell_def nth_list_update)
  next
    case False
    with b have "nat (snd p) \<noteq> nat y" by simp
    with b False show ?thesis by (cases p) (auto simp: cell_def)
  qed
qed

lemma set_cells_ok:
  assumes "wf_grid g" "\<forall>p\<in>set cs. in_map p"
  shows "\<exists>g'. set_cells g cs t = Inr g' \<and> wf_grid g' \<and>
           (\<forall>p. in_map p \<longrightarrow> cell g' p = (if p \<in> set cs then t else cell g p))"
  using assms
proof (induction cs arbitrary: g)
  case Nil
  then show ?case by simp
next
  case (Cons c cs)
  obtain x y where c: "c = (x, y)" by (cases c)
  let ?g1 = "g[nat y := (g ! nat y)[nat x := t]]"
  from Cons.prems c have im: "in_map (x, y)" by simp
  have s: "grid_set g y x t = Inr ?g1" by (rule grid_set_in_map [OF Cons.prems(1) im])
  have wf1: "wf_grid ?g1" by (rule wf_grid_update [OF Cons.prems(1) im])
  from Cons.IH [OF wf1] Cons.prems(2)
  obtain g' where g': "set_cells ?g1 cs t = Inr g'" "wf_grid g'"
    "\<And>p. in_map p \<Longrightarrow> cell g' p = (if p \<in> set cs then t else cell ?g1 p)"
    by force
  have "cell g' p = (if p \<in> set (c # cs) then t else cell g p)" if "in_map p" for p
    using g'(3) [OF that] cell_update [OF Cons.prems(1) im that, of t] c by auto
  with g'(1,2) s c show ?case by simp
qed

lemma open_cell_in_map: "open_cell g p \<Longrightarrow> in_map p"
  by (simp add: open_cell_def)

lemma set_cells_opens:
  assumes "wf_grid g" "\<forall>p\<in>set cs. in_map p" "\<not> is_wall_tile t"
  shows "\<exists>g'. set_cells g cs t = Inr g' \<and> wf_grid g' \<and> opens_more g g' \<and>
           (\<forall>p\<in>set cs. open_cell g' p)"
proof -
  from set_cells_ok [OF assms(1,2), of t] obtain g' where
    g': "set_cells g cs t = Inr g'" "wf_grid g'"
    "\<And>p. in_map p \<Longrightarrow> cell g' p = (if p \<in> set cs then t else cell g p)"
    by blast
  have "opens_more g g'"
    using g'(3) assms(3) by (auto simp: opens_more_def open_cell_def)
  moreover have "\<forall>p\<in>set cs. open_cell g' p"
    using g'(3) assms(2,3) by (auto simp: open_cell_def)
  ultimately show ?thesis using g'(1,2) by blast
qed

lemma opens_more_refl: "opens_more g g"
  by (simp add: opens_more_def)

lemma opens_more_trans: "opens_more g g' \<Longrightarrow> opens_more g' g'' \<Longrightarrow> opens_more g g''"
  unfolding opens_more_def by blast

lemma opens_moreD: "opens_more g g' \<Longrightarrow> open_cell g p \<Longrightarrow> open_cell g' p"
  unfolding opens_more_def by blast

lemma reachable_mono:
  assumes "reachable g p q" "opens_more g g'"
  shows "reachable g' p q"
  using assms
proof (induction rule: reachable.induct)
  case (start p)
  then show ?case by (auto intro: reachable.start dest: opens_moreD)
next
  case (move p q r)
  then show ?case by (auto intro: reachable.move dest: opens_moreD)
qed

lemma reachable_trans:
  assumes "reachable g p q" "reachable g q r"
  shows "reachable g p r"
  using assms(2) assms(1)
  by (induction rule: reachable.induct) (auto intro: reachable.move)

lemma reachable_open_source: "reachable g p q \<Longrightarrow> open_cell g p"
  by (induction rule: reachable.induct) auto

lemma reachable_open_target: "reachable g p q \<Longrightarrow> open_cell g q"
  by (induction rule: reachable.induct) auto

lemma adjacent_sym: "adjacent p q \<Longrightarrow> adjacent q p"
  by (simp add: adjacent_def abs_minus_commute)

lemma reachable_sym:
  assumes "reachable g p q"
  shows "reachable g q p"
  using assms
proof (induction rule: reachable.induct)
  case (start p)
  then show ?case by (rule reachable.start)
next
  case (move p q r)
  have "reachable g r q"
    using reachable.start [OF move.hyps(3)] adjacent_sym [OF move.hyps(2)]
      reachable_open_target [OF move.hyps(1)]
    by (rule reachable.move)
  then show ?case using move.IH by (rule reachable_trans)
qed

lemma h_segment_up:
  assumes "\<forall>x. a \<le> x \<and> x \<le> b \<longrightarrow> open_cell g (x, y)" "a \<le> x1" "x1 \<le> x2" "x2 \<le> b"
  shows "reachable g (x1, y) (x2, y)"
  using assms(3,4)
proof (induction "nat (x2 - x1)" arbitrary: x2)
  case 0
  then have "x2 = x1" by simp
  then show ?case using assms(1,2) 0 by (auto intro: reachable.start)
next
  case (Suc n)
  then have n: "n = nat ((x2 - 1) - x1)" "x1 \<le> x2 - 1" "x2 - 1 \<le> b" by simp_all
  have "reachable g (x1, y) (x2 - 1, y)" by (rule Suc.hyps(1) [OF n])
  moreover have "adjacent (x2 - 1, y) (x2, y)" by (simp add: adjacent_def)
  moreover have "open_cell g (x2, y)" using assms(1,2) Suc.prems by simp
  ultimately show ?case by (rule reachable.move)
qed

lemma h_segment:
  assumes "\<forall>x. min x1 x2 \<le> x \<and> x \<le> max x1 x2 \<longrightarrow> open_cell g (x, y)"
  shows "reachable g (x1, y) (x2, y)"
proof (cases "x1 \<le> x2")
  case True
  then show ?thesis using h_segment_up [OF assms, of x1 x2] by simp
next
  case False
  then have "reachable g (x2, y) (x1, y)" using h_segment_up [OF assms, of x2 x1] by simp
  then show ?thesis by (rule reachable_sym)
qed

lemma v_segment_up:
  assumes "\<forall>y. a \<le> y \<and> y \<le> b \<longrightarrow> open_cell g (x, y)" "a \<le> y1" "y1 \<le> y2" "y2 \<le> b"
  shows "reachable g (x, y1) (x, y2)"
  using assms(3,4)
proof (induction "nat (y2 - y1)" arbitrary: y2)
  case 0
  then have "y2 = y1" by simp
  then show ?case using assms(1,2) 0 by (auto intro: reachable.start)
next
  case (Suc n)
  then have n: "n = nat ((y2 - 1) - y1)" "y1 \<le> y2 - 1" "y2 - 1 \<le> b" by simp_all
  have "reachable g (x, y1) (x, y2 - 1)" by (rule Suc.hyps(1) [OF n])
  moreover have "adjacent (x, y2 - 1) (x, y2)" by (simp add: adjacent_def)
  moreover have "open_cell g (x, y2)" using assms(1,2) Suc.prems by simp
  ultimately show ?case by (rule reachable.move)
qed

lemma v_segment:
  assumes "\<forall>y. min y1 y2 \<le> y \<and> y \<le> max y1 y2 \<longrightarrow> open_cell g (x, y)"
  shows "reachable g (x, y1) (x, y2)"
proof (cases "y1 \<le> y2")
  case True
  then show ?thesis using v_segment_up [OF assms, of y1 y2] by simp
next
  case False
  then have "reachable g (x, y2) (x, y1)" using v_segment_up [OF assms, of y2 y1] by simp
  then show ?thesis by (rule reachable_sym)
qed

lemma randint_ok:
  assumes "a \<le> b"
  shows "\<exists>v. randint a b g = Inr (v, stl g) \<and> a \<le> v \<and> v \<le> b"
proof -
  have "shd g mod nat (b - a + 1) < nat (b - a + 1)"
    using assms by (intro mod_less_divisor) simp
  then have "a + int (shd g mod nat (b - a + 1)) \<le> b" using assms by linarith
  then show ?thesis using assms by (simp add: randint_def)
qed

lemma set_room_cells:
  "set (room_cells (x, y, w, h)) =
     {(rx, ry). x \<le> rx \<and> rx \<le> x + w - 1 \<and> y \<le> ry \<and> ry \<le> y + h - 1}"
  by (auto simp: room_cells_def)

lemma room_cells_in_map:
  assumes "room_ok r"
  shows "\<forall>p\<in>set (room_cells r). in_map p"
proof -
  obtain x y w h where r: "r = (x, y, w, h)" by (cases r)
  show ?thesis
    using assms unfolding r set_room_cells
    by (auto simp: room_ok_def in_map_def MAP_W_def MAP_H_def)
qed

lemma center_in_room:
  assumes "room_ok r"
  shows "center r \<in> set (room_cells r)"
proof -
  obtain x y w h where r: "r = (x, y, w, h)" by (cases r)
  from assms have "5 \<le> w" "4 \<le> h"
    by (simp_all add: r room_ok_def ROOM_MIN_W_def ROOM_MIN_H_def)
  then have "0 \<le> w div 2" "w div 2 \<le> w - 1" "0 \<le> h div 2" "h div 2 \<le> h - 1"
    by linarith+
  then show ?thesis unfolding r set_room_cells by (simp add: center_def)
qed

lemma center_in_map: "room_ok r \<Longrightarrow> in_map (center r)"
  using room_cells_in_map center_in_room by blast

lemma rects_overlap_sym: "rects_overlap a b p = rects_overlap b a p"
  by (cases a, cases b) (auto simp: rects_overlap_def Let_def)

lemma no_overlaps_snoc:
  assumes "no_overlaps rooms" "\<forall>r\<in>set rooms. \<not> rects_overlap new r 1"
  shows "no_overlaps (rooms @ [new])"
  unfolding no_overlaps_def
proof (intro allI impI)
  fix i j
  assume a: "i < length (rooms @ [new]) \<and> j < length (rooms @ [new]) \<and> i \<noteq> j"
  show "\<not> rects_overlap ((rooms @ [new]) ! i) ((rooms @ [new]) ! j) 1"
  proof (cases "i < length rooms")
    case i: True
    show ?thesis
    proof (cases "j < length rooms")
      case True
      with i a assms(1) show ?thesis by (simp add: no_overlaps_def nth_append)
    next
      case False
      with a have "j = length rooms" by simp
      with i assms(2) show ?thesis
        by (simp add: nth_append rects_overlap_sym [of _ new])
    qed
  next
    case False
    with a have i: "i = length rooms" and j: "j < length rooms" by simp_all
    with assms(2) show ?thesis by (simp add: nth_append)
  qed
qed

lemma place_rooms_inv:
  assumes "\<not> is_wall_tile fl" "wf_grid grid"
    "\<forall>r\<in>set rooms. room_ok r \<and> open_cell grid (center r)" "no_overlaps rooms"
  shows "\<exists>grid' rooms' g'. place_rooms n grid fl rooms attempts g = Inr (grid', rooms', g') \<and>
           wf_grid grid' \<and> (\<forall>r\<in>set rooms'. room_ok r \<and> open_cell grid' (center r)) \<and>
           no_overlaps rooms' \<and> opens_more grid grid'"
  using assms
proof (induction n grid fl rooms attempts g rule: place_rooms.induct)
  case (1 n grid fl rooms attempts g)
  show ?case
  proof (cases "length rooms < n \<and> attempts < n * 12")
    case False
    then have "place_rooms n grid fl rooms attempts g = Inr (grid, rooms, g)"
      by (subst place_rooms.simps) auto
    with "1.prems" show ?thesis by (simp add: opens_more_refl)
  next
    case True
    obtain w where w: "randint ROOM_MIN_W ROOM_MAX_W g = Inr (w, stl g)"
      "ROOM_MIN_W \<le> w" "w \<le> ROOM_MAX_W"
      using randint_ok [of ROOM_MIN_W ROOM_MAX_W g]
      by (auto simp: ROOM_MIN_W_def ROOM_MAX_W_def)
    obtain h where h: "randint ROOM_MIN_H ROOM_MAX_H (stl g) = Inr (h, stl (stl g))"
      "ROOM_MIN_H \<le> h" "h \<le> ROOM_MAX_H"
      using randint_ok [of ROOM_MIN_H ROOM_MAX_H "stl g"]
      by (auto simp: ROOM_MIN_H_def ROOM_MAX_H_def)
    have "1 \<le> MAP_W - w - 2" using w(3) by (simp add: MAP_W_def ROOM_MAX_W_def)
    then obtain x where x: "randint 1 (MAP_W - w - 2) (stl (stl g)) = Inr (x, stl (stl (stl g)))"
      "1 \<le> x" "x \<le> MAP_W - w - 2"
      using randint_ok [of 1 "MAP_W - w - 2" "stl (stl g)"] by auto
    have "1 \<le> MAP_H - h - 2" using h(3) by (simp add: MAP_H_def ROOM_MAX_H_def)
    then obtain y where y: "randint 1 (MAP_H - h - 2) (stl (stl (stl g))) =
        Inr (y, stl (stl (stl (stl g))))" "1 \<le> y" "y \<le> MAP_H - h - 2"
      using randint_ok [of 1 "MAP_H - h - 2" "stl (stl (stl g))"] by auto
    let ?new = "(x, y, w, h)"
    let ?g4 = "stl (stl (stl (stl g)))"
    have ok: "room_ok ?new" using w h x y by (simp add: room_ok_def)
    show ?thesis
    proof (cases "list_ex (\<lambda>r. rects_overlap ?new r 1) rooms")
      case ov: True
      have "place_rooms n grid fl rooms attempts g =
            place_rooms n grid fl rooms (attempts + 1) ?g4"
        using True ov w(1) h(1) x(1) y(1) by (subst place_rooms.simps) simp
      moreover note "1.IH"(1) [OF True w(1) refl h(1) refl x(1) refl y(1) refl ov "1.prems"]
      ultimately show ?thesis by simp
    next
      case nov: False
      from set_cells_opens [OF "1.prems"(2) room_cells_in_map [OF ok] "1.prems"(1)]
      obtain grid1 where g1: "set_cells grid (room_cells ?new) fl = Inr grid1" "wf_grid grid1"
        "opens_more grid grid1" "\<forall>p\<in>set (room_cells ?new). open_cell grid1 p"
        by blast
      have eq: "place_rooms n grid fl rooms attempts g =
            place_rooms n grid1 fl (rooms @ [?new]) (attempts + 1) ?g4"
        using True nov w(1) h(1) x(1) y(1) g1(1) by (subst place_rooms.simps) simp
      have r1: "\<forall>r\<in>set (rooms @ [?new]). room_ok r \<and> open_cell grid1 (center r)"
        using "1.prems"(3) ok g1(3,4) center_in_room [OF ok]
        by (auto dest: opens_moreD)
      have n1: "no_overlaps (rooms @ [?new])"
        using "1.prems"(4) nov by (intro no_overlaps_snoc) (simp_all add: list_ex_iff)
      from "1.IH"(2) [OF True w(1) refl h(1) refl x(1) refl y(1) refl nov g1(1)
          "1.prems"(1) g1(2) r1 n1]
      obtain grid' rooms' g' where
        r: "place_rooms n grid1 fl (rooms @ [?new]) (attempts + 1) ?g4 = Inr (grid', rooms', g')"
        "wf_grid grid'" "\<forall>r\<in>set rooms'. room_ok r \<and> open_cell grid' (center r)"
        "no_overlaps rooms'" "opens_more grid1 grid'"
        by blast
      from r(5) g1(3) have "opens_more grid grid'" by (blast intro: opens_more_trans)
      with r eq show ?thesis by simp
    qed
  qed
qed

lemma h_cells_in_map:
  assumes "in_map (x1, y)" "in_map (x2, y')"
  shows "\<forall>p\<in>set (map (\<lambda>x. (x, y)) [min x1 x2 .. max x1 x2]). in_map p"
  using assms by (auto simp: in_map_def)

lemma v_cells_in_map:
  assumes "in_map (x, y1)" "in_map (x', y2)"
  shows "\<forall>p\<in>set (map (\<lambda>y. (x, y)) [min y1 y2 .. max y1 y2]). in_map p"
  using assms by (auto simp: in_map_def)

lemma carve_h_corridor_ok:
  assumes "wf_grid g" "in_map (x1, y)" "in_map (x2, y')" "\<not> is_wall_tile t"
  shows "\<exists>g'. carve_h_corridor g x1 x2 y t = Inr g' \<and> wf_grid g' \<and> opens_more g g' \<and>
           reachable g' (x1, y) (x2, y)"
proof -
  from set_cells_opens [OF assms(1) h_cells_in_map [OF assms(2,3)] assms(4)]
  obtain g' where g': "carve_h_corridor g x1 x2 y t = Inr g'" "wf_grid g'" "opens_more g g'"
    "\<forall>p\<in>set (map (\<lambda>x. (x, y)) [min x1 x2 .. max x1 x2]). open_cell g' p"
    unfolding carve_h_corridor_def by blast
  from g'(4) have "\<forall>x. min x1 x2 \<le> x \<and> x \<le> max x1 x2 \<longrightarrow> open_cell g' (x, y)" by simp
  then have "reachable g' (x1, y) (x2, y)" by (rule h_segment)
  with g'(1-3) show ?thesis by blast
qed

lemma carve_v_corridor_ok:
  assumes "wf_grid g" "in_map (x, y1)" "in_map (x', y2)" "\<not> is_wall_tile t"
  shows "\<exists>g'. carve_v_corridor g y1 y2 x t = Inr g' \<and> wf_grid g' \<and> opens_more g g' \<and>
           reachable g' (x, y1) (x, y2)"
proof -
  from set_cells_opens [OF assms(1) v_cells_in_map [OF assms(2,3)] assms(4)]
  obtain g' where g': "carve_v_corridor g y1 y2 x t = Inr g'" "wf_grid g'" "opens_more g g'"
    "\<forall>p\<in>set (map (\<lambda>y. (x, y)) [min y1 y2 .. max y1 y2]). open_cell g' p"
    unfolding carve_v_corridor_def by blast
  from g'(4) have "\<forall>y. min y1 y2 \<le> y \<and> y \<le> max y1 y2 \<longrightarrow> open_cell g' (x, y)" by simp
  then have "reachable g' (x, y1) (x, y2)" by (rule v_segment)
  with g'(1-3) show ?thesis by blast
qed

lemma in_map_swap: "in_map (x1, y1) \<Longrightarrow> in_map (x2, y2) \<Longrightarrow> in_map (x2, y1)"
  by (simp add: in_map_def)

lemma corridor_h_then_v:
  assumes "wf_grid g" "in_map (x1, y1)" "in_map (x2, y2)" "\<not> is_wall_tile t"
  shows "\<exists>g2. (case carve_h_corridor g x1 x2 y1 t of
                  Inl e \<Rightarrow> Inl e
                | Inr g1 \<Rightarrow> carve_v_corridor g1 y1 y2 x2 t) = Inr g2 \<and>
           wf_grid g2 \<and> opens_more g g2 \<and> reachable g2 (x1, y1) (x2, y2)"
proof -
  from carve_h_corridor_ok [OF assms(1,2,3,4)]
  obtain g1 where g1: "carve_h_corridor g x1 x2 y1 t = Inr g1" "wf_grid g1" "opens_more g g1"
    "reachable g1 (x1, y1) (x2, y1)" by blast
  from carve_v_corridor_ok [OF g1(2) in_map_swap [OF assms(2,3)] assms(3,4)]
  obtain g2 where g2: "carve_v_corridor g1 y1 y2 x2 t = Inr g2" "wf_grid g2" "opens_more g1 g2"
    "reachable g2 (x2, y1) (x2, y2)" by blast
  have "reachable g2 (x1, y1) (x2, y1)" using g1(4) g2(3) by (rule reachable_mono)
  then have "reachable g2 (x1, y1) (x2, y2)" using g2(4) by (rule reachable_trans)
  moreover have "opens_more g g2" using g1(3) g2(3) by (rule opens_more_trans)
  ultimately show ?thesis using g1(1) g2(1,2) by simp
qed

lemma corridor_v_then_h:
  assumes "wf_grid g" "in_map (x1, y1)" "in_map (x2, y2)" "\<not> is_wall_tile t"
  shows "\<exists>g2. (case carve_v_corridor g y1 y2 x1 t of
                  Inl e \<Rightarrow> Inl e
                | Inr g1 \<Rightarrow> carve_h_corridor g1 x1 x2 y2 t) = Inr g2 \<and>
           wf_grid g2 \<and> opens_more g g2 \<and> reachable g2 (x1, y1) (x2, y2)"
proof -
  from carve_v_corridor_ok [OF assms(1,2,3,4)]
  obtain g1 where g1: "carve_v_corridor g y1 y2 x1 t = Inr g1" "wf_grid g1" "opens_more g g1"
    "reachable g1 (x1, y1) (x1, y2)" by blast
  from carve_h_corridor_ok [OF g1(2) in_map_swap [OF assms(3,2)] assms(3,4)]
  obtain g2 where g2: "carve_h_corridor g1 x1 x2 y2 t = Inr g2" "wf_grid g2" "opens_more g1 g2"
    "reachable g2 (x1, y2) (x2, y2)" by blast
  have "reachable g2 (x1, y1) (x1, y2)" using g1(4) g2(3) by (rule reachable_mono)
  then have "reachable g2 (x1, y1) (x2, y2)" using g2(4) by (rule reachable_trans)
  moreover have "opens_more g g2" using g1(3) g2(3) by (rule opens_more_trans)
  ultimately show ?thesis using g1(1) g2(1,2) by simp
qed

lemma connect_rooms_ok:
  assumes "\<not> is_wall_tile t" "wf_grid g" "\<forall>r\<in>set rs. in_map (center r)"
  shows "\<exists>g' rng'. connect_rooms g t rs rng = Inr (g', rng') \<and> wf_grid g' \<and>
           opens_more g g' \<and>
           (\<forall>i. Suc i < length rs \<longrightarrow> reachable g' (center (rs ! i)) (center (rs ! Suc i)))"
  using assms
proof (induction g t rs rng rule: connect_rooms.induct)
  case (1 g t r1 r2 rs rng)
  obtain x1 y1 where c1: "center r1 = (x1, y1)" by (cases "center r1")
  obtain x2 y2 where c2: "center r2 = (x2, y2)" by (cases "center r2")
  obtain b rng1 where ch: "choice_bool rng = (b, rng1)" by (cases "choice_bool rng")
  from "1.prems"(3) c1 c2 have im: "in_map (x1, y1)" "in_map (x2, y2)" by auto
  let ?carved = "if b then
                 (case carve_h_corridor g x1 x2 y1 t of
                    Inl e \<Rightarrow> Inl e
                  | Inr grid1 \<Rightarrow> carve_v_corridor grid1 y1 y2 x2 t)
               else
                 (case carve_v_corridor g y1 y2 x1 t of
                    Inl e \<Rightarrow> Inl e
                  | Inr grid1 \<Rightarrow> carve_h_corridor grid1 x1 x2 y2 t)"
  obtain g2 where g2: "?carved = Inr g2" "wf_grid g2" "opens_more g g2"
    "reachable g2 (x1, y1) (x2, y2)"
    using corridor_h_then_v [OF "1.prems"(2) im "1.prems"(1)]
      corridor_v_then_h [OF "1.prems"(2) im "1.prems"(1)]
    by (cases b) auto
  have eq: "connect_rooms g t (r1 # r2 # rs) rng = connect_rooms g2 t (r2 # rs) rng1"
    using g2(1) by (cases b) (auto simp: c1 c2 ch Let_def split: sum.splits)
  have rest: "\<forall>r\<in>set (r2 # rs). in_map (center r)" using "1.prems"(3) by simp
  have carved: "(if b then
                 (case carve_h_corridor g (fst (center r1)) (fst (center r2)) (snd (center r1)) t of
                    Inl e \<Rightarrow> Inl e
                  | Inr grid1 \<Rightarrow>
                      carve_v_corridor grid1 (snd (center r1)) (snd (center r2)) (fst (center r2)) t)
               else
                 (case carve_v_corridor g (snd (center r1)) (snd (center r2)) (fst (center r1)) t of
                    Inl e \<Rightarrow> Inl e
                  | Inr grid1 \<Rightarrow>
                      carve_h_corridor grid1 (fst (center r1)) (fst (center r2)) (snd (center r2)) t)) =
             Inr g2"
    unfolding c1 c2 fst_conv snd_conv by (rule g2(1))
  from "1.IH" [OF refl refl refl ch [symmetric] carved "1.prems"(1) g2(2) rest]
  obtain g' rng' where r: "connect_rooms g2 t (r2 # rs) rng1 = Inr (g', rng')" "wf_grid g'"
    "opens_more g2 g'"
    "\<forall>i. Suc i < length (r2 # rs) \<longrightarrow>
       reachable g' (center ((r2 # rs) ! i)) (center ((r2 # rs) ! Suc i))"
    by blast
  have first: "reachable g' (center r1) (center r2)"
    using g2(4) r(3) unfolding c1 c2 by (rule reachable_mono)
  have "reachable g' (center ((r1 # r2 # rs) ! i)) (center ((r1 # r2 # rs) ! Suc i))"
    if "Suc i < length (r1 # r2 # rs)" for i
  proof (cases i)
    case 0
    then show ?thesis using first by simp
  next
    case (Suc k)
    then show ?thesis using r(4) that by simp
  qed
  moreover have "opens_more g g'" using g2(3) r(3) by (rule opens_more_trans)
  ultimately show ?case using eq r(1,2) by simp
qed (simp_all add: opens_more_refl)

lemma all_pairs_reachable:
  assumes "\<forall>i. Suc i < length rs \<longrightarrow> reachable g (center (rs ! i)) (center (rs ! Suc i))"
    "\<forall>r\<in>set rs. open_cell g (center r)" "i < length rs" "j < length rs"
  shows "reachable g (center (rs ! i)) (center (rs ! j))"
proof -
  have up: "reachable g (center (rs ! a)) (center (rs ! (a + d)))" if "a + d < length rs" for a d
    using that
  proof (induction d)
    case 0
    then show ?case using assms(2) by (auto intro: reachable.start)
  next
    case (Suc d)
    then have "reachable g (center (rs ! a)) (center (rs ! (a + d)))" by simp
    moreover have "reachable g (center (rs ! (a + d))) (center (rs ! Suc (a + d)))"
      using assms(1) Suc.prems by simp
    ultimately show ?case by (simp add: reachable_trans)
  qed
  show ?thesis
  proof (cases "i \<le> j")
    case True
    then show ?thesis using up [of i "j - i"] assms(4) by simp
  next
    case False
    then have "reachable g (center (rs ! j)) (center (rs ! i))"
      using up [of j "i - j"] assms(3) by simp
    then show ?thesis by (rule reachable_sym)
  qed
qed

lemma place_castle_ok:
  assumes "wf_grid g" "\<not> is_wall_tile t"
  shows "\<exists>g'. place_castle g origin t = Inr g' \<and> wf_grid g' \<and> opens_more g g'"
proof -
  obtain ox oy where o: "origin = (ox, oy)" by (cases origin)
  let ?cs = "filter (\<lambda>(x, y). 0 \<le> x \<and> x < MAP_W \<and> 0 \<le> y \<and> y < MAP_H)
             (concat (map (\<lambda>j. map (\<lambda>i. (ox + i, oy + j)) [0 .. 3]) [0 .. 3]))"
  have "\<forall>p\<in>set ?cs. in_map p" by (auto simp: in_map_def)
  from set_cells_opens [OF assms(1) this assms(2)] show ?thesis
    unfolding place_castle_def o by auto
qed

lemma place_castles_ok:
  assumes "wf_grid g"
  shows "\<exists>g'. place_castles g rooms = Inr g' \<and> wf_grid g' \<and> opens_more g g'"
proof (cases "2 \<le> length rooms")
  case False
  then show ?thesis using assms by (simp add: place_castles_def opens_more_refl)
next
  case True
  let ?s = "sort_key (\<lambda>r. - area r) rooms"
  let ?c1 = "(fst (center (?s ! 0)) - 1, snd (center (?s ! 0)) - 1)"
  let ?c2 = "(fst (center (?s ! 1)) - 1, snd (center (?s ! 1)) - 1)"
  have nw: "\<not> is_wall_tile Castle" by (simp add: is_wall_tile_def)
  from place_castle_ok [OF assms nw, of ?c1]
  obtain g1 where g1: "place_castle g ?c1 Castle = Inr g1" "wf_grid g1" "opens_more g g1"
    by blast
  from place_castle_ok [OF g1(2) nw, of ?c2]
  obtain g2 where g2: "place_castle g1 ?c2 Castle = Inr g2" "wf_grid g2" "opens_more g1 g2"
    by blast
  have "opens_more g g2" using g1(3) g2(3) by (rule opens_more_trans)
  then show ?thesis using True g1(1) g2(1,2) by (simp add: place_castles_def Let_def)
qed

lemma grid_set_opens:
  assumes "wf_grid g" "in_map (x, y)" "\<not> is_wall_tile t"
  shows "\<exists>g'. grid_set g y x t = Inr g' \<and> wf_grid g' \<and> opens_more g g'"
  using set_cells_opens [OF assms(1) _ assms(3), of "[(x, y)]"] assms(2)
  by (auto split: sum.splits)

lemma decorate_cells_ok:
  assumes "wf_grid g" "\<forall>p\<in>set cs. in_map p" "\<forall>t. tree = Some t \<longrightarrow> \<not> is_wall_tile t"
  shows "\<exists>g' rng'. decorate_cells g cs tree d rng = Inr (g', rng') \<and> wf_grid g' \<and>
           opens_more g g'"
  using assms
proof (induction cs arbitrary: g rng)
  case Nil
  then show ?case by (simp add: opens_more_refl)
next
  case (Cons c cs)
  obtain x y where c: "c = (x, y)" by (cases c)
  obtain u rng1 where u: "random_unit rng = (u, rng1)" by (cases "random_unit rng")
  from Cons.prems have cs: "\<forall>p\<in>set cs. in_map p" and im: "in_map (x, y)" by (simp_all add: c)
  show ?case
  proof (cases "\<exists>t. tree = Some t \<and> u < d")
    case False
    then have "decorate_cells g (c # cs) tree d rng = decorate_cells g cs tree d rng1"
      by (auto simp: c u split: option.splits)
    with Cons.IH [OF Cons.prems(1) cs Cons.prems(3), of rng1] show ?thesis by simp
  next
    case True
    then obtain t where t: "tree = Some t" "u < d" by blast
    with Cons.prems(3) have "\<not> is_wall_tile t" by simp
    from grid_set_opens [OF Cons.prems(1) im this]
    obtain g1 where g1: "grid_set g y x t = Inr g1" "wf_grid g1" "opens_more g g1" by blast
    have "decorate_cells g (c # cs) tree d rng = decorate_cells g1 cs tree d rng1"
      using t g1(1) by (simp add: c u)
    moreover from Cons.IH [OF g1(2) cs Cons.prems(3), of rng1]
    obtain g' rng' where "decorate_cells g1 cs tree d rng1 = Inr (g', rng')" "wf_grid g'"
      "opens_more g1 g'" by blast
    ultimately show ?thesis using g1(3) by (auto intro: opens_more_trans)
  qed
qed

lemma add_decorations_ok:
  assumes "wf_grid g" "\<forall>t. tree = Some t \<longrightarrow> \<not> is_wall_tile t"
  shows "\<exists>g' rng'. add_decorations g tree d rng = Inr (g', rng') \<and> wf_grid g' \<and>
           opens_more g g'"
proof -
  have "\<forall>p\<in>set (concat (map (\<lambda>y. map (\<lambda>x. (x, y)) [0 .. MAP_W - 1]) [0 .. MAP_H - 1])).
          in_map p"
    by (auto simp: in_map_def)
  from decorate_cells_ok [OF assms(1) this assms(2)] show ?thesis
    by (simp add: add_decorations_def)
qed

lemma wf_initial_grid: "wf_grid (replicate (nat MAP_H) (replicate (nat MAP_W) Background))"
  by (simp add: wf_grid_def list_all_length)

lemma no_overlaps_empty: "no_overlaps []"
  by (simp add: no_overlaps_def)

lemma create_rooms_and_corridors_ok:
  assumes "wf_grid g0" "\<not> is_wall_tile fl" "\<not> is_wall_tile pt"
  shows "\<exists>grid rooms rng'.
           create_rooms_and_corridors n g0 fl pt rng = Inr (grid, rooms, rng') \<and>
           wf_grid grid \<and> no_overlaps rooms \<and>
           (\<forall>r\<in>set rooms. reachable grid (center r) (center r)) \<and>
           (\<forall>i. Suc i < length rooms \<longrightarrow>
              reachable grid (center (rooms ! i)) (center (rooms ! Suc i)))"
proof -
  from place_rooms_inv [OF assms(2,1) _ no_overlaps_empty, of n 0 rng]
  obtain grid1 rooms rng1 where p: "place_rooms n g0 fl [] 0 rng = Inr (grid1, rooms, rng1)"
    "wf_grid grid1" "\<forall>r\<in>set rooms. room_ok r \<and> open_cell grid1 (center r)"
    "no_overlaps rooms"
    by auto
  from p(3) have "\<forall>r\<in>set rooms. in_map (center r)" by (blast intro: center_in_map)
  from connect_rooms_ok [OF assms(3) p(2) this, of rng1]
  obtain grid2 rng2 where c: "connect_rooms grid1 pt rooms rng1 = Inr (grid2, rng2)"
    "wf_grid grid2" "opens_more grid1 grid2"
    "\<forall>i. Suc i < length rooms \<longrightarrow>
       reachable grid2 (center (rooms ! i)) (center (rooms ! Suc i))"
    by blast
  have "\<forall>r\<in>set rooms. reachable grid2 (center r) (center r)"
    using p(3) c(3) by (blast intro: reachable.start opens_moreD)
  with p(1,4) c(1,2,4) show ?thesis by (simp add: create_rooms_and_corridors_def)
qed

lemma main_facts:
  "\<exists>grid rooms spawns.
     main seed_rng seed n_rooms g0 = Inr (grid, rooms, spawns) \<and>
     wf_grid grid \<and> no_overlaps rooms \<and>
     (\<forall>i j. i < length rooms \<and> j < length rooms \<longrightarrow>
        reachable grid (center (rooms ! i)) (center (rooms ! j)))"
proof -
  let ?g = "case seed of None \<Rightarrow> g0 | Some s \<Rightarrow> seed_rng s"
  let ?grid0 = "replicate (nat MAP_H) (replicate (nat MAP_W) Background)"
  have nw: "\<not> is_wall_tile Floor" "\<not> is_wall_tile Path"
    "\<forall>t. Some Tree = Some t \<longrightarrow> \<not> is_wall_tile t"
    by (simp_all add: is_wall_tile_def)
  from create_rooms_and_corridors_ok [OF wf_initial_grid nw(1,2), of n_rooms ?g]
  obtain grid1 rooms g1 where
    c: "create_rooms_and_corridors n_rooms ?grid0 Floor Path ?g = Inr (grid1, rooms, g1)"
    "wf_grid grid1" "no_overlaps rooms"
    "\<forall>r\<in>set rooms. reachable grid1 (center r) (center r)"
    "\<forall>i. Suc i < length rooms \<longrightarrow>
       reachable grid1 (center (rooms ! i)) (center (rooms ! Suc i))"
    by blast
  from place_castles_ok [OF c(2), of rooms]
  obtain grid2 where k: "place_castles grid1 rooms = Inr grid2" "wf_grid grid2"
    "opens_more grid1 grid2" by blast
  from add_decorations_ok [OF k(2) nw(3), of "2 / 100" g1]
  obtain grid3 g2 where d: "add_decorations grid2 (Some Tree) (2 / 100) g1 = Inr (grid3, g2)"
    "wf_grid grid3" "opens_more grid2 grid3" by blast
  have om: "opens_more grid1 grid3" using k(3) d(3) by (rule opens_more_trans)
  have consecutive: "\<forall>i. Suc i < length rooms \<longrightarrow>
       reachable grid3 (center (rooms ! i)) (center (rooms ! Suc i))"
    using c(5) om by (blast intro: reachable_mono)
  have centers: "\<forall>r\<in>set rooms. open_cell grid3 (center r)"
    using c(4) om by (blast intro: reachable_open_source opens_moreD)
  have "\<forall>i j. i < length rooms \<and> j < length rooms \<longrightarrow>
        reachable grid3 (center (rooms ! i)) (center (rooms ! j))"
    using all_pairs_reachable [OF consecutive centers] by blast
  moreover have "main seed_rng seed n_rooms g0 = Inr (grid3, rooms, map center (take 6 rooms))"
    using c(1) k(1) d(1) by (simp add: main_def)
  ultimately show ?thesis using d(2) c(3) by blast
qed

lemma create_rooms_and_corridors_rooms:
  assumes "create_rooms_and_corridors n g0 fl pt rng = Inr (grid, rooms, rng')"
  shows "\<exists>grid1 g1. place_rooms n g0 fl [] 0 rng = Inr (grid1, rooms, g1)"
proof (cases "place_rooms n g0 fl [] 0 rng")
  case (Inl e)
  with assms show ?thesis by (simp add: create_rooms_and_corridors_def)
next
  case (Inr t)
  obtain grid1 rooms1 g1 where t: "t = (grid1, rooms1, g1)" by (cases t)
  show ?thesis
  proof (cases "connect_rooms grid1 pt rooms1 g1")
    case (Inl e)
    with assms Inr t show ?thesis by (simp add: create_rooms_and_corridors_def)
  next
    case c: (Inr u)
    obtain grid2 g2 where "u = (grid2, g2)" by (cases u)
    with assms Inr t c show ?thesis by (simp add: create_rooms_and_corridors_def)
  qed
qed

lemma main_rooms:
  assumes "main seed_rng seed n_rooms g0 = Inr (grid, rooms, spawns)"
  shows "\<exists>grid1 g1.
           place_rooms n_rooms (replicate (nat MAP_H) (replicate (nat MAP_W) Background)) Floor []
             0 (case seed of None \<Rightarrow> g0 | Some s \<Rightarrow> seed_rng s) = Inr (grid1, rooms, g1)"
    and "spawns = map center (take 6 rooms)"
proof -
  let ?g = "case seed of None \<Rightarrow> g0 | Some s \<Rightarrow> seed_rng s"
  let ?grid0 = "replicate (nat MAP_H) (replicate (nat MAP_W) Background)"
  have "(\<exists>grid1 g1. create_rooms_and_corridors n_rooms ?grid0 Floor Path ?g =
            Inr (grid1, rooms, g1)) \<and> spawns = map center (take 6 rooms)"
  proof (cases "create_rooms_and_corridors n_rooms ?grid0 Floor Path ?g")
    case (Inl e)
    with assms show ?thesis by (simp add: main_def)
  next
    case (Inr t)
    obtain grid1 rooms1 g1 where t: "t = (grid1, rooms1, g1)" by (cases t)
    show ?thesis
    proof (cases "place_castles grid1 rooms1")
      case (Inl e)
      with assms Inr t show ?thesis by (simp add: main_def)
    next
      case k: (Inr grid2)
      show ?thesis
      proof (cases "add_decorations grid2 (Some Tree) (2 / 100) g1")
        case (Inl e)
        with assms Inr t k show ?thesis by (simp add: main_def)
      next
        case d: (Inr u)
        obtain grid3 g2 where "u = (grid3, g2)" by (cases u)
        with assms Inr t k d show ?thesis by (auto simp: main_def)
      qed
    qed
  qed
  then show "\<exists>grid1 g1. place_rooms n_rooms ?grid0 Floor [] 0 ?g = Inr (grid1, rooms, g1)"
    and "spawns = map center (take 6 rooms)"
    by (blast dest: create_rooms_and_corridors_rooms)+
qed

lemmas gen_eval = MAP_H_def MAP_W_def ROOM_MIN_W_def ROOM_MAX_W_def ROOM_MIN_H_def
  ROOM_MAX_H_def randint_def rects_overlap_def room_cells_def grid_set_def np_index_def
  upto.simps

lemma place_rooms_example:
  "map_sum id (\<lambda>(grid, rooms, g). rooms)
     (place_rooms 2 (replicate (nat MAP_H) (replicate (nat MAP_W) Background)) Floor [] 0
        ([0, 0, 0, 0, 0, 0, 8, 8] @- sconst 0)) =
   Inr [(1, 1, 5, 4), (9, 9, 5, 4)]"
  by (simp add: gen_eval)




text \<open>
  Claim C7: for every seed, every state of the random source and every number of rooms
  asked for, the generation returns, and in the final grid (after rooms, corridors,
  castles and decorations) the center of every room of the returned list is reachable
  from the center of every other one by a walk over cells that are not walls.
\<close>

theorem room_centers_connected:
  "\<exists>grid rooms spawns.
     main seed_rng seed n_rooms g0 = Inr (grid, rooms, spawns) \<and>
     (\<forall>i j. i < length rooms \<and> j < length rooms \<longrightarrow>
        reachable grid (center (rooms ! i)) (center (rooms ! j)))"
  using main_facts [of seed_rng seed n_rooms g0] by blast

theorem room_centers_connected_witness:
  "\<exists>grid spawns.
     main (\<lambda>s. sconst 0) None 2 ([0, 0, 0, 0, 0, 0, 8, 8] @- sconst 0) =
       Inr (grid, [(1, 1, 5, 4), (9, 9, 5, 4)], spawns) \<and>
     reachable grid (3, 3) (11, 11) \<and> reachable grid (11, 11) (3, 3)"
proof -
  from room_centers_connected [of "\<lambda>s. sconst 0" None 2 "[0, 0, 0, 0, 0, 0, 8, 8] @- sconst 0"]
  obtain grid rooms spawns where
    m: "main (\<lambda>s. sconst 0) None 2 ([0, 0, 0, 0, 0, 0, 8, 8] @- sconst 0) =
          Inr (grid, rooms, spawns)"
    and n: "\<forall>i j. i < length rooms \<and> j < length rooms \<longrightarrow>
        reachable grid (center (rooms ! i)) (center (rooms ! j))"
    by blast
  from main_rooms(1) [OF m] place_rooms_example
  have r: "rooms = [(1, 1, 5, 4), (9, 9, 5, 4)]" by auto
  from n [rule_format, of 0 1] n [rule_format, of 1 0]
  have "reachable grid (center (rooms ! 0)) (center (rooms ! 1))"
    "reachable grid (center (rooms ! 1)) (center (rooms ! 0))" unfolding r by simp_all
  then have "reachable grid (3, 3) (11, 11)" "reachable grid (11, 11) (3, 3)"
    unfolding r by (simp_all add: center_def)
  with m show ?thesis unfolding r by auto
qed

text \<open>
  Claim C8: two runs of the generation with the same seed and the same number of rooms
  return the same grid, the same list of rooms and the same spawn points, whatever state
  the random source was in when each run started.
\<close>

theorem seeded_generation_deterministic:
  "main seed_rng (Some s) n_rooms g1 = main seed_rng (Some s) n_rooms g2"
  by (simp add: main_def)

text \<open>
  Without a seed (\<open>SEED = None\<close>) the result does depend on the state of the random
  source.
\<close>

lemma unseeded_generation_depends_on_state:
  "main seed_rng None 1 (sconst 0) \<noteq> main seed_rng None 1 (sconst 1)"
proof
  assume eq: "main seed_rng None 1 (sconst 0) = main seed_rng None 1 (sconst 1)"
  obtain grid rooms spawns where m: "main seed_rng None 1 (sconst 0) = Inr (grid, rooms, spawns)"
    using main_facts [of seed_rng None 1 "sconst 0"] by blast
  have a: "map_sum id (\<lambda>(grid, rooms, g). rooms)
     (place_rooms 1 (replicate (nat MAP_H) (replicate (nat MAP_W) Background)) Floor [] 0
        (sconst 0)) = Inr [(1, 1, 5, 4)]"
    by (simp add: gen_eval)
  have b: "map_sum id (\<lambda>(grid, rooms, g). rooms)
     (place_rooms 1 (replicate (nat MAP_H) (replicate (nat MAP_W) Background)) Floor [] 0
        (sconst 1)) = Inr [(2, 2, 6, 5)]"
    by (simp add: gen_eval)
  from main_rooms(1) [OF m] a have "rooms = [(1, 1, 5, 4)]" by auto
  moreover from main_rooms(1) [OF m [unfolded eq]] b have "rooms = [(2, 2, 6, 5)]" by auto
  ultimately show False by simp
qed

text \<open>The run of the source itself, with its module constants \<open>SEED\<close> and \<open>N_ROOMS\<close>.\<close>

lemma source_run_independent_of_state:
  "main seed_rng SEED N_ROOMS g1 = main seed_rng SEED N_ROOMS g2"
  by (simp add: main_def SEED_def)

end
